theory Spec2Isabelle
  imports Main "HOL-Library.Sublist"
begin

section \<open>The vending machine example: topic states and the change algorithm\<close>

text \<open>
  The enumerations of the example. \<open>CoinType\<close> carries its face value in cents as the
  enumerator's value, \<open>ProductIdType\<close> counts from 0.
\<close>

datatype CoinType =
  kCoinTypeNone | kCoinType5c | kCoinType10c | kCoinType25c | kCoinType50c | kCoinType1d

fun coin_value :: "CoinType \<Rightarrow> nat" where
  "coin_value kCoinTypeNone = 0"
| "coin_value kCoinType5c = 5"
| "coin_value kCoinType10c = 10"
| "coin_value kCoinType25c = 25"
| "coin_value kCoinType50c = 50"
| "coin_value kCoinType1d = 100"

datatype ProductIdType =
  kProductIdTypeNone | kSchokolade | kApfelzaft | kMate | kFrischMilch

text \<open>
  Everything that ends a call early: an \<open>assert\<close> that fails, \<open>std::map::at\<close> and
  \<open>std::vector::at\<close> on a missing key or index, a dereferenced null \<open>shared_ptr\<close>,
  and the two undefined behaviours the code can reach (\<open>*min_element\<close> of an empty range,
  \<open>%\<close> by zero).
\<close>

datatype error = AssertionFailed | OutOfRange | NullPointer | UndefinedBehaviour

subsection \<open>std::map keyed by CoinType\<close>

text \<open>
  \<open>CoinStock\<close> and \<open>Draw\<close> are \<open>std::map<CoinType, unsigned>\<close>: the keys are unique and
  iteration runs in increasing key order, which \<open>IsDrawPossible\<close> depends on.  They are
  association lists kept sorted by \<open>coin_value\<close>.  The counts are \<open>unsigned\<close>; they are
  natural numbers here, since every count and every sum the table computes is bounded by
  \<open>mMaxChange\<close>, itself an \<open>unsigned\<close>.
\<close>

type_synonym CoinSet = "CoinType list"
type_synonym CoinStock = "(CoinType \<times> nat) list"
type_synonym Draw = "(CoinType \<times> nat) list"
type_synonym LUTCell = "Draw list"
type_synonym LUTRow = "LUTCell list"

text \<open>\<open>m[k] = f (m[k])\<close>, where \<open>operator[]\<close> inserts a zero for a missing key.\<close>

fun map_modify :: "CoinType \<Rightarrow> (nat \<Rightarrow> nat) \<Rightarrow> (CoinType \<times> nat) list \<Rightarrow> (CoinType \<times> nat) list" where
  "map_modify k f [] = [(k, f 0)]"
| "map_modify k f ((k', v) # m) =
     (if k = k' then (k', f v) # m
      else if coin_value k < coin_value k' then (k, f 0) # (k', v) # m
      else (k', v) # map_modify k f m)"

text \<open>\<open>m.at(k)\<close>: the value, or \<open>std::out_of_range\<close>.\<close>

definition map_at :: "(CoinType \<times> nat) list \<Rightarrow> CoinType \<Rightarrow> error + nat" where
  "map_at m k = (case map_of m k of None \<Rightarrow> Inl OutOfRange | Some v \<Rightarrow> Inr v)"

text \<open>
  \<open>std::min_element(first, last, cmp)\<close> on a non-empty range whose first element is
  \<open>smallest\<close>: a later element replaces the candidate only when it is strictly smaller,
  so the first of several minimal elements is returned.
\<close>

fun min_element :: "('a \<Rightarrow> 'a \<Rightarrow> bool) \<Rightarrow> 'a \<Rightarrow> 'a list \<Rightarrow> 'a" where
  "min_element cmp smallest [] = smallest"
| "min_element cmp smallest (x # xs) =
     (if cmp x smallest then min_element cmp x xs else min_element cmp smallest xs)"

subsection \<open>ChangeAlgo::ChangeLookupTable\<close>

record ChangeLookupTable =
  mEmptyDraw :: Draw
  mMaxChange :: nat
  mSetOfCoins :: CoinSet
  mMinDenominator :: nat
  mLookupRow :: LUTRow

definition IncrementedDraw :: "Draw \<Rightarrow> CoinType \<Rightarrow> Draw" where
  "IncrementedDraw emptyDraw denominationType = map_modify denominationType (\<lambda>n. n + 1) emptyDraw"

definition MakeEmptyDraw :: "CoinSet \<Rightarrow> Draw" where
  "MakeEmptyDraw coinSet = fold (\<lambda>coinType emptyDraw. map_modify coinType (\<lambda>_. 0) emptyDraw) coinSet []"

text \<open>
  The body of the inner loop of the constructor for one \<open>targetIdx\<close>: what is pushed onto
  \<open>lutt[coinIndex][targetIdx]\<close>.  \<open>up\<close> is the row of the previous coin (absent for
  \<open>coinIndex = 0\<close>), \<open>row\<close> is \<open>lutt[coinIndex]\<close> as filled so far.
\<close>

definition lut_cell :: "Draw \<Rightarrow> nat \<Rightarrow> LUTRow option \<Rightarrow> LUTRow \<Rightarrow> CoinType \<Rightarrow> nat \<Rightarrow> LUTCell" where
  "lut_cell emptyDraw minDenominator up row denominationType targetIdx =
     (let denomination = coin_value denominationType;
          denominationSteps = denomination div minDenominator;
          target = targetIdx * minDenominator;
          fromCell = (case up of None \<Rightarrow> [] | Some upRow \<Rightarrow> upRow ! targetIdx)
      in if denomination = target then [IncrementedDraw emptyDraw denominationType]
         else if denomination > target then fromCell
         else fromCell @
              map (\<lambda>leftDraw. IncrementedDraw leftDraw denominationType)
                  (row ! (targetIdx - denominationSteps)))"

text \<open>
  One pass of the outer loop: the row of one coin, every cell starting empty
  (\<open>LUTRow(targetColumnsRange)\<close>) and filled from left to right.
\<close>

definition lut_row :: "Draw \<Rightarrow> nat \<Rightarrow> nat \<Rightarrow> LUTRow option \<Rightarrow> CoinType \<Rightarrow> LUTRow" where
  "lut_row emptyDraw minDenominator targetColumnsRange up denominationType =
     fold (\<lambda>targetIdx row.
             row[targetIdx := lut_cell emptyDraw minDenominator up row denominationType targetIdx])
          [0..<targetColumnsRange] (replicate targetColumnsRange [])"

text \<open>The outer loop, keeping only the last row built, which is \<open>lutt.back()\<close> at the end.\<close>

definition lut_rows :: "Draw \<Rightarrow> nat \<Rightarrow> nat \<Rightarrow> CoinSet \<Rightarrow> LUTRow option" where
  "lut_rows emptyDraw minDenominator targetColumnsRange setOfCoins =
     fold (\<lambda>denominationType up.
             Some (lut_row emptyDraw minDenominator targetColumnsRange up denominationType))
          setOfCoins None"

text \<open>
  The constructor.  An empty coin set makes \<open>*std::min_element\<close> read past the end; a
  smallest coin of value 0 makes the first assertion compute \<open>coin % 0\<close>.  Both are
  undefined behaviour and no table results.  The three \<open>assert\<close>s follow.
\<close>

definition ChangeLookupTable_ctor :: "CoinSet \<Rightarrow> nat \<Rightarrow> error + ChangeLookupTable" where
  "ChangeLookupTable_ctor setOfCoins maxChange =
     (case setOfCoins of
        [] \<Rightarrow> Inl UndefinedBehaviour
      | c # cs \<Rightarrow>
          (let emptyDraw = MakeEmptyDraw setOfCoins;
               minDenominator =
                 coin_value (min_element (\<lambda>a b. coin_value a < coin_value b) c cs)
           in if minDenominator = 0 then Inl UndefinedBehaviour
              else if \<exists>coin \<in> set setOfCoins. coin_value coin mod minDenominator \<noteq> 0
                then Inl AssertionFailed
              else if maxChange mod minDenominator \<noteq> 0 then Inl AssertionFailed
              else
                (let midTargets = maxChange div minDenominator;
                     targetColumnsRange = midTargets + 1
                 in case lut_rows emptyDraw minDenominator targetColumnsRange setOfCoins of
                      None \<Rightarrow> Inl UndefinedBehaviour
                    | Some lastRow \<Rightarrow>
                        Inr \<lparr>mEmptyDraw = emptyDraw, mMaxChange = maxChange,
                             mSetOfCoins = setOfCoins, mMinDenominator = minDenominator,
                             mLookupRow = lastRow\<rparr>)))"

definition GetChangeDraws :: "ChangeLookupTable \<Rightarrow> nat \<Rightarrow> error + LUTCell" where
  "GetChangeDraws t change =
     (if mMinDenominator t = 0 then Inl AssertionFailed
      else if change mod mMinDenominator t \<noteq> 0 then Inl AssertionFailed
      else if \<not> change \<le> mMaxChange t then Inl AssertionFailed
      else (let t_idx = change div mMinDenominator t
            in if t_idx < length (mLookupRow t) then Inr (mLookupRow t ! t_idx)
               else Inl OutOfRange))"

definition GetDrawScore :: "Draw \<Rightarrow> nat" where
  "GetDrawScore draw = fold (\<lambda>value accumulator. accumulator + snd value) draw 0"

text \<open>
  \<open>std::all_of\<close> over the stock in key order, stopping at the first coin the draw needs
  more of than the stock holds; \<open>draw.at\<close> throws for a stocked coin the draw has no
  entry for, if the walk gets that far.
\<close>

fun IsDrawPossible :: "CoinStock \<Rightarrow> Draw \<Rightarrow> error + bool" where
  "IsDrawPossible [] draw = Inr True"
| "IsDrawPossible (availableCoin # rest) draw =
     (case map_at draw (fst availableCoin) of
        Inl e \<Rightarrow> Inl e
      | Inr n \<Rightarrow> if n \<le> snd availableCoin then IsDrawPossible rest draw else Inr False)"

text \<open>\<open>std::copy_if\<close> with \<open>IsDrawPossible\<close> as predicate; an exception ends the copy.\<close>

fun copy_if_possible :: "CoinStock \<Rightarrow> LUTCell \<Rightarrow> error + LUTCell" where
  "copy_if_possible availableCoins [] = Inr []"
| "copy_if_possible availableCoins (d # draws) =
     (case IsDrawPossible availableCoins d of
        Inl e \<Rightarrow> Inl e
      | Inr keep \<Rightarrow>
          (case copy_if_possible availableCoins draws of
             Inl e \<Rightarrow> Inl e
           | Inr possibleDraws \<Rightarrow> Inr (if keep then d # possibleDraws else possibleDraws)))"

text \<open>\<open>std::count_if\<close> with the same predicate: every draw is tested.\<close>

fun count_if_possible :: "CoinStock \<Rightarrow> LUTCell \<Rightarrow> error + nat" where
  "count_if_possible availableCoins [] = Inr 0"
| "count_if_possible availableCoins (d # draws) =
     (case IsDrawPossible availableCoins d of
        Inl e \<Rightarrow> Inl e
      | Inr hit \<Rightarrow>
          (case count_if_possible availableCoins draws of
             Inl e \<Rightarrow> Inl e
           | Inr n \<Rightarrow> Inr (if hit then n + 1 else n)))"

text \<open>
  The two overloads of \<open>GetSmallestChange\<close>.  \<open>*std::min_element\<close> of an empty range is
  undefined behaviour.
\<close>

definition smallest_draw :: "LUTCell \<Rightarrow> error + Draw" where
  "smallest_draw draws =
     (case draws of
        [] \<Rightarrow> Inl UndefinedBehaviour
      | d # ds \<Rightarrow> Inr (min_element (\<lambda>d1 d2. GetDrawScore d1 < GetDrawScore d2) d ds))"

definition GetSmallestChange_any :: "ChangeLookupTable \<Rightarrow> nat \<Rightarrow> error + Draw" where
  "GetSmallestChange_any t change =
     (case GetChangeDraws t change of Inl e \<Rightarrow> Inl e | Inr draws \<Rightarrow> smallest_draw draws)"

definition GetSmallestChange :: "ChangeLookupTable \<Rightarrow> CoinStock \<Rightarrow> nat \<Rightarrow> error + Draw" where
  "GetSmallestChange t availableCoins change =
     (case GetChangeDraws t change of
        Inl e \<Rightarrow> Inl e
      | Inr draws \<Rightarrow>
          (case copy_if_possible availableCoins draws of
             Inl e \<Rightarrow> Inl e
           | Inr possibleDraws \<Rightarrow> smallest_draw possibleDraws))"

definition CanGiveChange :: "ChangeLookupTable \<Rightarrow> CoinStock \<Rightarrow> nat \<Rightarrow> error + bool" where
  "CanGiveChange t availableCoins change =
     (case GetChangeDraws t change of
        Inl e \<Rightarrow> Inl e
      | Inr draws \<Rightarrow>
          (case count_if_possible availableCoins draws of
             Inl e \<Rightarrow> Inl e
           | Inr n \<Rightarrow> Inr (n \<noteq> 0)))"

text \<open>The money a draw pays out: the sum over its coins of denomination times count.\<close>

definition draw_value :: "Draw \<Rightarrow> nat" where
  "draw_value draw = (\<Sum>(coin, n) \<leftarrow> draw. coin_value coin * n)"

text \<open>The coins a \<open>std::map\<close> has an entry for.\<close>

definition keys_of :: "(CoinType \<times> nat) list \<Rightarrow> CoinType set" where
  "keys_of m = fst ` set m"

text \<open>
  The invariant of the table while the constructor fills it, for the column \<open>t\<close> of a row:
  the column of change 0 holds no draw, and every draw of column \<open>t\<close> has an entry for
  exactly the coins of the coin set and pays out \<open>t\<close> times the smallest denomination.
\<close>

definition cell_ok :: "CoinSet \<Rightarrow> nat \<Rightarrow> nat \<Rightarrow> LUTCell \<Rightarrow> bool" where
  "cell_ok S minD t cell \<longleftrightarrow>
     (t = 0 \<longrightarrow> cell = []) \<and> (\<forall>d \<in> set cell. keys_of d = set S \<and> draw_value d = t * minD)"

definition row_ok :: "CoinSet \<Rightarrow> nat \<Rightarrow> nat \<Rightarrow> LUTRow \<Rightarrow> bool" where
  "row_ok S minD n row \<longleftrightarrow> length row = n \<and> (\<forall>t < n. cell_ok S minD t (row ! t))"

subsection \<open>Topic states\<close>

text \<open>
  The topic states are plain structs; each is a datatype whose constructor takes the
  fields in the order of the struct's constructor.  \<open>int\<close> fields are integers,
  \<open>unsigned\<close> ones natural numbers below \<open>2 ^ 32\<close>; a conversion from \<open>int\<close> to
  \<open>unsigned\<close> is \<open>to_unsigned\<close>.
\<close>

definition to_unsigned :: "int \<Rightarrow> nat" where
  "to_unsigned x = nat (x mod 2 ^ 32)"

datatype CoinInserted = CoinInserted CoinType
datatype SelectedProduct = SelectedProduct ProductIdType
datatype SaleProcessed = SaleProcessed ProductIdType int
datatype UserBalance = UserBalance int
datatype ReturnChange = ReturnChange int
datatype FinancesReport = FinancesReport nat

record ProductState =
  count :: int
  priceCents :: int

text \<open>\<open>StockState::products\<close>, a \<open>std::map\<close> that is only searched by key here.\<close>

type_synonym StockState = "ProductIdType \<Rightarrow> ProductState option"

type_synonym RefillChange = CoinStock
type_synonym ReleaseCoins = Draw

text \<open>
  \<open>ChangeAvailable\<close> holds the coin stock by value and the lookup table through a
  \<open>std::shared_ptr<const ChangeLookupTable>\<close>.  The tables live in a store, a list
  indexed by address; \<open>None\<close> is the null pointer of the default constructor.
\<close>

type_synonym addr = nat
type_synonym table_store = "ChangeLookupTable list"

record ChangeAvailable =
  mCoins :: CoinStock
  mpChangeLookupTable :: "addr option"

definition ChangeAvailable_default :: ChangeAvailable where
  "ChangeAvailable_default = \<lparr>mCoins = [], mpChangeLookupTable = None\<rparr>"

definition deref :: "table_store \<Rightarrow> addr option \<Rightarrow> error + ChangeLookupTable" where
  "deref store p =
     (case p of
        None \<Rightarrow> Inl NullPointer
      | Some a \<Rightarrow> if a < length store then Inr (store ! a) else Inl UndefinedBehaviour)"

definition ChangeAvailable_CanGiveChange ::
    "table_store \<Rightarrow> ChangeAvailable \<Rightarrow> nat \<Rightarrow> error + bool" where
  "ChangeAvailable_CanGiveChange store ca change =
     (case deref store (mpChangeLookupTable ca) of
        Inl e \<Rightarrow> Inl e
      | Inr t \<Rightarrow> CanGiveChange t (mCoins ca) change)"

datatype message =
    MsgSaleProcessed SaleProcessed
  | MsgChangeAvailable ChangeAvailable
  | MsgReleaseCoins ReleaseCoins
  | MsgFinancesReport FinancesReport

subsection \<open>SaleProcessor\<close>

record SaleProcessor =
  sp_mUserBalance :: UserBalance
  sp_mSelection :: SelectedProduct
  sp_mStock :: StockState
  sp_mChangeAvailable :: ChangeAvailable

text \<open>
  \<open>SaleProcessor::CompleteEvaluation\<close>: what it publishes.  The four conditions are
  tested left to right and \<open>&&\<close> stops at the first that fails, so the table is consulted
  only for a stocked product the balance covers.
\<close>

definition SaleProcessor_CompleteEvaluation ::
    "table_store \<Rightarrow> SaleProcessor \<Rightarrow> error + SaleProcessed list" where
  "SaleProcessor_CompleteEvaluation store sp =
     (case (sp_mUserBalance sp, sp_mSelection sp) of
        (UserBalance totalCents, SelectedProduct productId) \<Rightarrow>
          (case sp_mStock sp productId of
             None \<Rightarrow> Inr []
           | Some stockForProduct \<Rightarrow>
               if count stockForProduct > 0 \<and> priceCents stockForProduct \<le> totalCents then
                 (case ChangeAvailable_CanGiveChange store (sp_mChangeAvailable sp)
                         (to_unsigned (totalCents - priceCents stockForProduct)) of
                    Inl e \<Rightarrow> Inl e
                  | Inr ok \<Rightarrow>
                      Inr (if ok then [SaleProcessed productId (priceCents stockForProduct)]
                           else []))
               else Inr []))"

text \<open>
  A small table used to exercise the functions: the coins 5c and 10c, change up to 20 cents.
\<close>

definition table20 :: ChangeLookupTable where
  "table20 =
     \<lparr>mEmptyDraw = [(kCoinType5c, 0), (kCoinType10c, 0)], mMaxChange = 20,
      mSetOfCoins = [kCoinType5c, kCoinType10c], mMinDenominator = 5,
      mLookupRow =
        [[],
         [[(kCoinType5c, 1), (kCoinType10c, 0)]],
         [[(kCoinType5c, 0), (kCoinType10c, 1)]],
         [[(kCoinType5c, 3), (kCoinType10c, 0)], [(kCoinType5c, 1), (kCoinType10c, 1)]],
         [[(kCoinType5c, 4), (kCoinType10c, 0)], [(kCoinType5c, 0), (kCoinType10c, 2)]]]\<rparr>"
subsection \<open>FinancesReportDetector\<close>

record FinancesReportDetector =
  frd_mChangeAvailable :: ChangeAvailable
  frd_mUserBalance :: UserBalance

text \<open>
  \<open>Evaluate(const Lagged<SaleProcessed>&)\<close>: the value of the coins in the stock last
  seen, less the user's balance, in \<open>unsigned\<close> arithmetic, is published as a
  \<open>FinancesReport\<close>.
\<close>

definition coinsBalance :: "CoinStock \<Rightarrow> nat" where
  "coinsBalance stock =
     fold (\<lambda>value accumulator. (accumulator + coin_value (fst value) * snd value) mod 2 ^ 32)
          stock 0"

definition FinancesReportDetector_Evaluate_Lagged ::
    "FinancesReportDetector \<Rightarrow> FinancesReport" where
  "FinancesReportDetector_Evaluate_Lagged frd =
     (case frd_mUserBalance frd of
        UserBalance totalCents \<Rightarrow>
          FinancesReport
            (to_unsigned (int (coinsBalance (mCoins (frd_mChangeAvailable frd))) - totalCents)))"

subsection \<open>CoinBankManager\<close>

record CoinBankManager =
  cbm_mAvailable :: CoinStock
  cbm_mpChangeLookupTable :: "addr option"

text \<open>
  \<open>Evaluate(const RefillChange&)\<close> adds each refilled count to the stock, and
  \<open>Evaluate(const CoinInserted&)\<close> adds one coin; both in \<open>unsigned\<close> arithmetic.
\<close>

definition CoinBankManager_Evaluate_RefillChange :: "RefillChange \<Rightarrow> CoinStock \<Rightarrow> CoinStock" where
  "CoinBankManager_Evaluate_RefillChange aRefill available =
     fold (\<lambda>coinRefill stock.
             map_modify (fst coinRefill) (\<lambda>n. (n + snd coinRefill) mod 2 ^ 32) stock)
          aRefill available"

definition CoinBankManager_Evaluate_CoinInserted :: "CoinInserted \<Rightarrow> CoinStock \<Rightarrow> CoinStock" where
  "CoinBankManager_Evaluate_CoinInserted aInserted available =
     (case aInserted of
        CoinInserted coin \<Rightarrow> map_modify coin (\<lambda>n. (n + 1) mod 2 ^ 32) available)"

subsection \<open>The detectors of the example over one store of tables\<close>

text \<open>
  The state the callbacks of \<open>SaleProcessor\<close>, \<open>FinancesReportDetector\<close> and
  \<open>CoinBankManager\<close> run in: the store of lookup tables that \<open>shared_ptr\<close>s point into,
  the three detectors, and everything published so far, oldest first.
\<close>

record vending =
  store :: table_store
  saleProcessor :: SaleProcessor
  financesReportDetector :: FinancesReportDetector
  coinBankManager :: CoinBankManager
  published :: "message list"

text \<open>
  The callbacks, and the constructor of \<open>CoinBankManager\<close>, which allocates the table
  with \<open>std::make_shared\<close>.
\<close>

datatype callback =
    SaleProcessor_Evaluate_UserBalance UserBalance
  | SaleProcessor_Evaluate_SelectedProduct SelectedProduct
  | SaleProcessor_Evaluate_StockState StockState
  | SaleProcessor_Evaluate_ChangeAvailable ChangeAvailable
  | SaleProcessor_Complete
  | FinancesReportDetector_Evaluate_ChangeAvailable ChangeAvailable
  | FinancesReportDetector_Evaluate_UserBalance UserBalance
  | FinancesReportDetector_Evaluate_LaggedSale SaleProcessed
  | CoinBankManager_ctor
  | CoinBankManager_Evaluate_ReturnChange ReturnChange
  | CoinBankManager_Evaluate_Refill RefillChange
  | CoinBankManager_Evaluate_Coin CoinInserted
  | CoinBankManager_Complete

fun invoke :: "callback \<Rightarrow> vending \<Rightarrow> error + vending" where
  "invoke (SaleProcessor_Evaluate_UserBalance aUserBalance) w =
     Inr (w\<lparr>saleProcessor := (saleProcessor w)\<lparr>sp_mUserBalance := aUserBalance\<rparr>\<rparr>)"
| "invoke (SaleProcessor_Evaluate_SelectedProduct aSelection) w =
     Inr (w\<lparr>saleProcessor := (saleProcessor w)\<lparr>sp_mSelection := aSelection\<rparr>\<rparr>)"
| "invoke (SaleProcessor_Evaluate_StockState aStock) w =
     Inr (w\<lparr>saleProcessor := (saleProcessor w)\<lparr>sp_mStock := aStock\<rparr>\<rparr>)"
| "invoke (SaleProcessor_Evaluate_ChangeAvailable aChangeAvailable) w =
     Inr (w\<lparr>saleProcessor := (saleProcessor w)\<lparr>sp_mChangeAvailable := aChangeAvailable\<rparr>\<rparr>)"
| "invoke SaleProcessor_Complete w =
     (case SaleProcessor_CompleteEvaluation (store w) (saleProcessor w) of
        Inl e \<Rightarrow> Inl e
      | Inr sales \<Rightarrow> Inr (w\<lparr>published := published w @ map MsgSaleProcessed sales\<rparr>))"
| "invoke (FinancesReportDetector_Evaluate_ChangeAvailable changeAvailable) w =
     Inr (w\<lparr>financesReportDetector :=
              (financesReportDetector w)\<lparr>frd_mChangeAvailable := changeAvailable\<rparr>\<rparr>)"
| "invoke (FinancesReportDetector_Evaluate_UserBalance userBalance) w =
     Inr (w\<lparr>financesReportDetector :=
              (financesReportDetector w)\<lparr>frd_mUserBalance := userBalance\<rparr>\<rparr>)"
| "invoke (FinancesReportDetector_Evaluate_LaggedSale sale) w =
     Inr (w\<lparr>published := published w @
              [MsgFinancesReport (FinancesReportDetector_Evaluate_Lagged (financesReportDetector w))]\<rparr>)"
| "invoke CoinBankManager_ctor w =
     (case ChangeLookupTable_ctor
             [kCoinType5c, kCoinType10c, kCoinType25c, kCoinType50c, kCoinType1d] 300 of
        Inl e \<Rightarrow> Inl e
      | Inr t \<Rightarrow>
          Inr (w\<lparr>store := store w @ [t],
                 coinBankManager :=
                   \<lparr>cbm_mAvailable = [], cbm_mpChangeLookupTable = Some (length (store w))\<rparr>\<rparr>))"
| "invoke (CoinBankManager_Evaluate_ReturnChange aChange) w =
     (case aChange of
        ReturnChange totalCents \<Rightarrow>
          (case deref (store w) (cbm_mpChangeLookupTable (coinBankManager w)) of
             Inl e \<Rightarrow> Inl e
           | Inr t \<Rightarrow>
               (case GetSmallestChange t (cbm_mAvailable (coinBankManager w))
                       (to_unsigned totalCents) of
                  Inl e \<Rightarrow> Inl e
                | Inr returningChange \<Rightarrow>
                    Inr (w\<lparr>published := published w @ [MsgReleaseCoins returningChange]\<rparr>))))"
| "invoke (CoinBankManager_Evaluate_Refill aRefill) w =
     Inr (w\<lparr>coinBankManager := (coinBankManager w)
              \<lparr>cbm_mAvailable :=
                 CoinBankManager_Evaluate_RefillChange aRefill
                   (cbm_mAvailable (coinBankManager w))\<rparr>\<rparr>)"
| "invoke (CoinBankManager_Evaluate_Coin aInserted) w =
     Inr (w\<lparr>coinBankManager := (coinBankManager w)
              \<lparr>cbm_mAvailable :=
                 CoinBankManager_Evaluate_CoinInserted aInserted
                   (cbm_mAvailable (coinBankManager w))\<rparr>\<rparr>)"
| "invoke CoinBankManager_Complete w =
     Inr (w\<lparr>published := published w @
              [MsgChangeAvailable
                 \<lparr>mCoins = cbm_mAvailable (coinBankManager w),
                  mpChangeLookupTable = cbm_mpChangeLookupTable (coinBankManager w)\<rparr>]\<rparr>)"

text \<open>A sequence of callbacks, stopping at the first that fails.\<close>

fun invoke_all :: "callback list \<Rightarrow> vending \<Rightarrow> error + vending" where
  "invoke_all [] w = Inr w"
| "invoke_all (cb # cbs) w =
     (case invoke cb w of Inl e \<Rightarrow> Inl e | Inr w' \<Rightarrow> invoke_all cbs w')"

text \<open>
  What a published \<open>ChangeAvailable\<close> denotes in a store: its coins and the table its
  pointer leads to.
\<close>

definition payload :: "table_store \<Rightarrow> ChangeAvailable \<Rightarrow> CoinStock \<times> (error + ChangeLookupTable)" where
  "payload st ca = (mCoins ca, deref st (mpChangeLookupTable ca))"

text \<open>A pointer is live in a store when it is null or leads to a table of the store.\<close>

definition live :: "table_store \<Rightarrow> addr option \<Rightarrow> bool" where
  "live st p = (case p of None \<Rightarrow> True | Some a \<Rightarrow> a < length st)"

text \<open>
  A machine in which the coin bank has published its stock of three 5c coins once, and has
  since been handed one more coin.
\<close>

definition vending0 :: vending where
  "vending0 =
     \<lparr>store = [table20],
      saleProcessor =
        \<lparr>sp_mUserBalance = UserBalance 0, sp_mSelection = SelectedProduct kProductIdTypeNone,
         sp_mStock = Map.empty,
         sp_mChangeAvailable = \<lparr>mCoins = [(kCoinType5c, 3)], mpChangeLookupTable = Some 0\<rparr>\<rparr>,
      financesReportDetector =
        \<lparr>frd_mChangeAvailable = \<lparr>mCoins = [(kCoinType5c, 3)], mpChangeLookupTable = Some 0\<rparr>,
         frd_mUserBalance = UserBalance 0\<rparr>,
      coinBankManager =
        \<lparr>cbm_mAvailable = [(kCoinType5c, 4)], cbm_mpChangeLookupTable = Some 0\<rparr>,
      published =
        [MsgChangeAvailable \<lparr>mCoins = [(kCoinType5c, 3)], mpChangeLookupTable = Some 0\<rparr>]\<rparr>"
section \<open>The graph core: topics, registry, detectors and the traversal\<close>

text \<open>
  The sources at hand hold the vending machine example only; \<open>graph.hpp\<close>,
  \<open>detector.hpp\<close>, \<open>topic.hpp\<close>, \<open>topicregistry.hpp\<close> and \<open>processorcontainer.hpp\<close> are
  included by it but are not among them.  The definitions of this section follow the
  specification's description of these components, sentence by sentence.
\<close>

text \<open>
  Modelled from the spec: topic identity (the registry's key type is missing).  Each value
  type used in the graph is one topic; \<open>Lagged<T>\<close> is a topic distinct from \<open>T\<close>.
\<close>

datatype topic_id = TopicOf nat | Lagged topic_id

fun is_lagged :: "topic_id \<Rightarrow> bool" where
  "is_lagged (Lagged T) = True"
| "is_lagged (TopicOf n) = False"

text \<open>
  Modelled from the spec: the two fatal conditions of the engine (section 7), a publish
  against an unregistered topic and a cycle that remains after ignoring Lagged edges.
\<close>

datatype graph_error = TopicNotFound | CyclicGraph

text \<open>
  Modelled from the spec: \<open>Topic<T>\<close> (section 3; \<open>topic.hpp\<close> is missing).  It holds the
  last fully published value, the values published in the current traversal in publish
  order, and its subscribers in registration order, each a detector's index.
\<close>

record 'v Topic =
  current :: 'v
  new_values :: "'v list"
  subscribers :: "nat list"

text \<open>
  Modelled from the spec: \<open>HasNewValue()\<close> is true iff \<open>new_values\<close> is non-empty
  (section 3).
\<close>

definition HasNewValue :: "'v Topic \<Rightarrow> bool" where
  "HasNewValue t \<longleftrightarrow> new_values t \<noteq> []"

text \<open>
  Modelled from the spec: \<open>Consolidate\<close> (section 4.1) sets \<open>current\<close> to the last of
  \<open>new_values\<close>, if any, and clears \<open>new_values\<close>.
\<close>

definition Consolidate :: "'v Topic \<Rightarrow> 'v Topic" where
  "Consolidate t =
     (if new_values t = [] then t
      else t\<lparr>current := last (new_values t), new_values := []\<rparr>)"

text \<open>
  Modelled from the spec: \<open>TopicRegistry\<close> (section 4.2; \<open>topicregistry.hpp\<close> is missing),
  a mapping from topic identity to the owned topic.  The topics are stored in slots in
  the order they were created; a slot's index stands for the topic instance.
\<close>

type_synonym 'v TopicRegistry = "(topic_id \<times> 'v Topic) list"

text \<open>
  Modelled from the spec: the lookup of a topic type in the registry, giving the slot of
  its topic if there is one.
\<close>

fun slot_of :: "topic_id \<Rightarrow> 'v TopicRegistry \<Rightarrow> nat option" where
  "slot_of T [] = None"
| "slot_of T (entry # reg) =
     (if fst entry = T then Some 0 else map_option Suc (slot_of T reg))"

text \<open>
  Modelled from the spec: \<open>Resolve<T>\<close> returns the existing topic or creates and inserts
  one, holding the default state of \<open>T\<close>.  The result is the instance and the registry.
\<close>

definition Resolve :: "'v \<Rightarrow> topic_id \<Rightarrow> 'v TopicRegistry \<Rightarrow> nat \<times> 'v TopicRegistry" where
  "Resolve dflt T reg =
     (case slot_of T reg of
        Some i \<Rightarrow> (i, reg)
      | None \<Rightarrow>
          (length reg, reg @ [(T, \<lparr>current = dflt, new_values = [], subscribers = []\<rparr>)]))"

text \<open>The registry after resolving a sequence of topic types, starting from an empty one.\<close>

definition resolve_all :: "'v \<Rightarrow> topic_id list \<Rightarrow> 'v TopicRegistry" where
  "resolve_all dflt Ts = fold (\<lambda>T reg. snd (Resolve dflt T reg)) Ts []"

text \<open>
  Modelled from the spec: \<open>Publish\<close> (section 4.1) appends the value to \<open>new_values\<close>; it
  fails with \<open>TopicNotFound\<close> if the topic is not registered.  No deduplication.
\<close>

definition Publish :: "topic_id \<Rightarrow> 'v \<Rightarrow> 'v TopicRegistry \<Rightarrow> graph_error + 'v TopicRegistry" where
  "Publish T v reg =
     (case slot_of T reg of
        None \<Rightarrow> Inl TopicNotFound
      | Some i \<Rightarrow>
          Inr (reg[i := (T, (snd (reg ! i))\<lparr>new_values := new_values (snd (reg ! i)) @ [v]\<rparr>)]))"

fun publish_each :: "(topic_id \<times> 'v) list \<Rightarrow> 'v TopicRegistry \<Rightarrow> graph_error + 'v TopicRegistry" where
  "publish_each [] reg = Inr reg"
| "publish_each (out # outs) reg =
     (case Publish (fst out) (snd out) reg of
        Inl e \<Rightarrow> Inl e
      | Inr reg' \<Rightarrow> publish_each outs reg')"

text \<open>
  Modelled from the spec: the \<open>new_values\<close> of a topic type, the values published in the
  current traversal; a type without a topic has none.
\<close>

definition new_values_of :: "'v TopicRegistry \<Rightarrow> topic_id \<Rightarrow> 'v list" where
  "new_values_of reg T = (case map_of reg T of None \<Rightarrow> [] | Some t \<Rightarrow> new_values t)"

text \<open>
  Modelled from the spec: \<open>Detector\<close> (section 4.4; \<open>detector.hpp\<close> is missing).  A detector
  lists the topics it subscribes to and the topics it publishes to, and supplies the two
  callbacks; both run on the detector's private storage and may publish.
\<close>

record ('s, 'v) Detector =
  subscriptions :: "topic_id list"
  publications :: "topic_id list"
  Evaluate :: "topic_id \<Rightarrow> 'v \<Rightarrow> 's \<Rightarrow> 's \<times> (topic_id \<times> 'v) list"
  CompleteEvaluation :: "'s \<Rightarrow> 's \<times> (topic_id \<times> 'v) list"
  storage :: 's

text \<open>The callbacks the engine invokes, each with the index of the detector called.\<close>

datatype 'v call = EvaluateCall nat topic_id 'v | CompleteEvaluationCall nat

fun callee :: "'v call \<Rightarrow> nat" where
  "callee (EvaluateCall d T v) = d"
| "callee (CompleteEvaluationCall d) = d"

text \<open>
  Modelled from the spec: \<open>Graph\<close> (section 3; \<open>graph.hpp\<close> is missing) owns the registry
  and the detectors, in registration order.  \<open>calls\<close> records the callbacks of the
  traversal under way, oldest first.
\<close>

record ('s, 'v) Graph =
  registry :: "'v TopicRegistry"
  detectors :: "('s, 'v) Detector list"
  calls :: "'v call list"

text \<open>
  Modelled from the spec: the ordering relation of section 4.5, ``detector A precedes
  detector B iff A publishes a topic B subscribes to'', a Lagged topic being no edge.
\<close>

definition precedes :: "('s, 'v) Detector list \<Rightarrow> nat \<Rightarrow> nat \<Rightarrow> bool" where
  "precedes ds A B \<longleftrightarrow>
     list_ex (\<lambda>T. \<not> is_lagged T \<and> List.member (subscriptions (ds ! B)) T) (publications (ds ! A))"

text \<open>
  Modelled from the spec: the topological order of section 4.5, deterministic, ties broken
  by registration order, failing with \<open>CyclicGraph\<close>.  Of the detectors not yet placed, the
  first in registration order that no unplaced detector precedes comes next; when there
  is none, the rest lies on a cycle.
\<close>

function topological_order :: "(nat \<Rightarrow> nat \<Rightarrow> bool) \<Rightarrow> nat list \<Rightarrow> graph_error + nat list" where
  "topological_order edge remaining =
     (if remaining = [] then Inr []
      else
        (case find (\<lambda>d. list_all (\<lambda>p. \<not> edge p d) remaining) remaining of
           None \<Rightarrow> Inl CyclicGraph
         | Some d \<Rightarrow>
             (case topological_order edge (remove1 d remaining) of
                Inl e \<Rightarrow> Inl e
              | Inr rest \<Rightarrow> Inr (d # rest))))"
  by pat_completeness auto
termination
proof (relation "measure (\<lambda>(edge, remaining). length remaining)")
  show "wf (measure (\<lambda>(edge, remaining). length remaining))" by simp
next
  fix edge :: "nat \<Rightarrow> nat \<Rightarrow> bool" and remaining :: "nat list" and d
  assume "remaining \<noteq> []"
    and "find (\<lambda>d. list_all (\<lambda>p. \<not> edge p d) remaining) remaining = Some d"
  then have "d \<in> set remaining"
    by (auto simp: find_Some_iff)
  then have "length (remove1 d remaining) < length remaining"
    using length_pos_if_in_set [of d remaining] by (simp add: length_remove1)
  then show "((edge, remove1 d remaining), (edge, remaining))
             \<in> measure (\<lambda>(edge, remaining). length remaining)"
    by simp
qed

declare topological_order.simps [simp del]

definition TopologicalOrder :: "('s, 'v) Graph \<Rightarrow> graph_error + nat list" where
  "TopologicalOrder g =
     topological_order (precedes (detectors g)) [0..<length (detectors g)]"

text \<open>
  Modelled from the spec: step 2 of the traversal algorithm of section 4.5 for one
  detector.  The detector is skipped if none of its subscribed topics is dirty.  Otherwise
  each value of each subscribed topic, topics in subscription order and values in publish
  order, goes to \<open>Evaluate\<close>; then \<open>CompleteEvaluation\<close> is called.  The values are
  those the topics hold when the visit begins; what a callback publishes is added to the
  topics at once.  \<open>walk\<close> is the loop over the detectors in the order given.
\<close>

definition is_dirty :: "'v TopicRegistry \<Rightarrow> ('s, 'v) Detector \<Rightarrow> bool" where
  "is_dirty reg d \<longleftrightarrow> list_ex (\<lambda>T. new_values_of reg T \<noteq> []) (subscriptions d)"

definition inputs_of :: "'v TopicRegistry \<Rightarrow> ('s, 'v) Detector \<Rightarrow> (topic_id \<times> 'v) list" where
  "inputs_of reg d = concat (map (\<lambda>T. map (Pair T) (new_values_of reg T)) (subscriptions d))"

fun deliver :: "nat \<Rightarrow> (topic_id \<times> 'v) list \<Rightarrow> ('s, 'v) Graph \<Rightarrow> graph_error + ('s, 'v) Graph" where
  "deliver i [] g = Inr g"
| "deliver i (input # inputs) g =
     (let d = detectors g ! i;
          result = Evaluate d (fst input) (snd input) (storage d)
      in case publish_each (snd result) (registry g) of
           Inl e \<Rightarrow> Inl e
         | Inr reg \<Rightarrow>
             deliver i inputs
               (g\<lparr>registry := reg,
                  detectors := (detectors g)[i := d\<lparr>storage := fst result\<rparr>],
                  calls := calls g @ [EvaluateCall i (fst input) (snd input)]\<rparr>))"

definition complete :: "nat \<Rightarrow> ('s, 'v) Graph \<Rightarrow> graph_error + ('s, 'v) Graph" where
  "complete i g =
     (let d = detectors g ! i;
          result = CompleteEvaluation d (storage d)
      in case publish_each (snd result) (registry g) of
           Inl e \<Rightarrow> Inl e
         | Inr reg \<Rightarrow>
             Inr (g\<lparr>registry := reg,
                    detectors := (detectors g)[i := d\<lparr>storage := fst result\<rparr>],
                    calls := calls g @ [CompleteEvaluationCall i]\<rparr>))"

definition visit :: "nat \<Rightarrow> ('s, 'v) Graph \<Rightarrow> graph_error + ('s, 'v) Graph" where
  "visit i g =
     (if \<not> is_dirty (registry g) (detectors g ! i) then Inr g
      else
        (case deliver i (inputs_of (registry g) (detectors g ! i)) g of
           Inl e \<Rightarrow> Inl e
         | Inr g' \<Rightarrow> complete i g'))"

fun walk :: "nat list \<Rightarrow> ('s, 'v) Graph \<Rightarrow> graph_error + ('s, 'v) Graph" where
  "walk [] g = Inr g"
| "walk (i # order) g =
     (case visit i g of Inl e \<Rightarrow> Inl e | Inr g' \<Rightarrow> walk order g')"

text \<open>
  Modelled from the spec: \<open>EvaluateGraph\<close> (section 4.5), one traversal: the order is
  computed, the detectors are walked in it, and after the last detector every topic is
  consolidated.  A failure ends the traversal.
\<close>

definition EvaluateGraph :: "('s, 'v) Graph \<Rightarrow> graph_error + ('s, 'v) Graph" where
  "EvaluateGraph g =
     (case TopologicalOrder g of
        Inl e \<Rightarrow> Inl e
      | Inr order \<Rightarrow>
          (case walk order (g\<lparr>calls := []\<rparr>) of
             Inl e \<Rightarrow> Inl e
           | Inr g' \<Rightarrow>
               Inr (g'\<lparr>registry := map (\<lambda>entry. (fst entry, Consolidate (snd entry)))
                                      (registry g')\<rparr>)))"

text \<open>
  Modelled from the spec: \<open>ProcessData\<close> (section 4.7; \<open>processorcontainer.hpp\<close> is
  missing) posts the value to its topic and calls \<open>EvaluateGraph\<close>.
\<close>

definition ProcessData :: "topic_id \<Rightarrow> 'v \<Rightarrow> ('s, 'v) Graph \<Rightarrow> graph_error + ('s, 'v) Graph" where
  "ProcessData T v g =
     (case Publish T v (registry g) of
        Inl e \<Rightarrow> Inl e
      | Inr reg \<Rightarrow> EvaluateGraph (g\<lparr>registry := reg\<rparr>))"

text \<open>
  The graph the walker has before it when it reaches detector \<open>i\<close>: the result of walking
  the detectors that come before \<open>i\<close> in the order.
\<close>

definition reached :: "nat list \<Rightarrow> nat \<Rightarrow> ('s, 'v) Graph \<Rightarrow> graph_error + ('s, 'v) Graph" where
  "reached order i g = walk (takeWhile (\<lambda>j. j \<noteq> i) order) g"

text \<open>
  The call log of one visit, read off \<open>visit\<close>: nothing for a detector that is skipped,
  otherwise one \<open>Evaluate\<close> per input followed by \<open>CompleteEvaluation\<close>.
\<close>

definition visit_calls :: "nat \<Rightarrow> ('s, 'v) Graph \<Rightarrow> 'v call list" where
  "visit_calls i g =
     (if is_dirty (registry g) (detectors g ! i)
      then map (\<lambda>input. EvaluateCall i (fst input) (snd input))
             (inputs_of (registry g) (detectors g ! i)) @ [CompleteEvaluationCall i]
      else [])"

text \<open>
  The graph of the specification's scenario S1, with the downstream detector registered
  first: detector 0 subscribes to topic 1 and publishes to topic 2, detector 1 subscribes
  to topic 0 and publishes to topic 1.  Each keeps the last value it was given and
  publishes ten times that value.
\<close>

definition detector_1_to_2 :: "(nat, nat) Detector" where
  "detector_1_to_2 =
     \<lparr>subscriptions = [TopicOf 1], publications = [TopicOf 2],
      Evaluate = (\<lambda>T v s. (v, [])),
      CompleteEvaluation = (\<lambda>s. (s, [(TopicOf 2, 10 * s)])),
      storage = 0\<rparr>"

definition detector_0_to_1 :: "(nat, nat) Detector" where
  "detector_0_to_1 =
     \<lparr>subscriptions = [TopicOf 0], publications = [TopicOf 1],
      Evaluate = (\<lambda>T v s. (v, [])),
      CompleteEvaluation = (\<lambda>s. (s, [(TopicOf 1, 10 * s)])),
      storage = 0\<rparr>"

definition graph_S1 :: "(nat, nat) Graph" where
  "graph_S1 =
     \<lparr>registry = resolve_all 0 [TopicOf 1, TopicOf 2, TopicOf 0],
      detectors = [detector_1_to_2, detector_0_to_1],
      calls = []\<rparr>"




section \<open>Properties of the change algorithm\<close>

subsection \<open>Draws as maps\<close>

lemma keys_of_Nil [simp]: "keys_of [] = {}"
  by (simp add: keys_of_def)

lemma keys_of_Cons [simp]: "keys_of (x # m) = insert (fst x) (keys_of m)"
  by (simp add: keys_of_def)

lemma keys_map_modify: "keys_of (map_modify k f m) = insert k (keys_of m)"
proof (induction m)
  case Nil
  show ?case by simp
next
  case (Cons x m)
  obtain k' v where x: "x = (k', v)" by (cases x)
  show ?case
    using Cons by (simp add: x insert_commute)
qed

lemma draw_value_Cons: "draw_value ((k, n) # m) = coin_value k * n + draw_value m"
  by (simp add: draw_value_def)

lemma draw_value_Nil: "draw_value [] = 0"
  by (simp add: draw_value_def)

lemma draw_value_increment:
  "draw_value (map_modify k (\<lambda>n. n + 1) m) = draw_value m + coin_value k"
  by (induction m) (auto simp: draw_value_Cons draw_value_Nil)

lemma draw_value_reset:
  "draw_value m = 0 \<Longrightarrow> draw_value (map_modify k (\<lambda>_. 0) m) = 0"
  by (induction m) (auto simp: draw_value_Cons draw_value_Nil)

lemma fold_invariant:
  "(\<And>x s. x \<in> set xs \<Longrightarrow> I s \<Longrightarrow> I (f x s)) \<Longrightarrow> I s \<Longrightarrow> I (fold f xs s)"
  by (induction xs arbitrary: s) auto

lemma MakeEmptyDraw_keys: "keys_of (MakeEmptyDraw coinSet) = set coinSet"
proof -
  have "keys_of (fold (\<lambda>coinType emptyDraw. map_modify coinType (\<lambda>_. 0) emptyDraw) cs m)
        = set cs \<union> keys_of m" for cs m
    by (induction cs arbitrary: m) (auto simp: keys_map_modify)
  then show ?thesis by (simp add: MakeEmptyDraw_def)
qed

lemma MakeEmptyDraw_value: "draw_value (MakeEmptyDraw coinSet) = 0"
  unfolding MakeEmptyDraw_def
  by (rule fold_invariant) (auto simp: draw_value_reset draw_value_Nil)

lemma IncrementedDraw_keys:
  "keys_of (IncrementedDraw d coin) = insert coin (keys_of d)"
  by (simp add: IncrementedDraw_def keys_map_modify)

lemma IncrementedDraw_value:
  "draw_value (IncrementedDraw d coin) = draw_value d + coin_value coin"
  unfolding IncrementedDraw_def by (rule draw_value_increment)

lemma cell_ok_Nil: "cell_ok S minD t []"
  by (simp add: cell_ok_def)

lemma row_ok_replicate: "row_ok S minD n (replicate n [])"
  by (simp add: row_ok_def cell_ok_Nil)

lemma lut_cell_ok:
  assumes e: "keys_of emptyDraw = set S" "draw_value emptyDraw = 0"
    and coin: "coin \<in> set S" "0 < minD" "coin_value coin mod minD = 0" "0 < coin_value coin"
    and up: "\<And>upRow. up = Some upRow \<Longrightarrow> row_ok S minD n upRow"
    and row: "row_ok S minD n row"
    and t: "t < n"
  shows "cell_ok S minD t (lut_cell emptyDraw minD up row coin t)"
proof -
  let ?from = "case up of None \<Rightarrow> [] | Some upRow \<Rightarrow> upRow ! t"
  have from_ok: "cell_ok S minD t ?from"
    using up t by (cases up) (auto simp: cell_ok_Nil row_ok_def)
  consider (eq) "coin_value coin = t * minD"
    | (gt) "coin_value coin > t * minD"
    | (lt) "coin_value coin < t * minD"
    by linarith
  then show ?thesis
  proof cases
    case eq
    then have "t \<noteq> 0" using coin by auto
    then show ?thesis
      using eq e coin
      by (auto simp: lut_cell_def cell_ok_def IncrementedDraw_keys IncrementedDraw_value)
  next
    case gt
    then show ?thesis using from_ok by (simp add: lut_cell_def)
  next
    case lt
    let ?steps = "coin_value coin div minD"
    have steps: "?steps * minD = coin_value coin"
      using coin by (simp add: mod_eq_0_iff_dvd)
    have le: "?steps \<le> t"
      using lt steps coin(2)
      by (metis less_imp_le_nat mult_le_cancel2 nat_neq_iff not_less)
    have "t \<noteq> 0" using lt by (cases t) auto
    have left: "cell_ok S minD (t - ?steps) (row ! (t - ?steps))"
      using row t by (simp add: row_ok_def)
    have val: "(t - ?steps) * minD + coin_value coin = t * minD"
      using le steps by (metis add.commute add_mult_distrib le_add_diff_inverse)
    have "cell_ok S minD t
            (map (\<lambda>leftDraw. IncrementedDraw leftDraw coin) (row ! (t - ?steps)))"
      using left coin(1) val \<open>t \<noteq> 0\<close>
      by (auto simp: cell_ok_def IncrementedDraw_keys IncrementedDraw_value)
    then show ?thesis
      using lt from_ok by (auto simp: lut_cell_def cell_ok_def Let_def)
  qed
qed

lemma lut_row_ok:
  assumes e: "keys_of emptyDraw = set S" "draw_value emptyDraw = 0"
    and coin: "coin \<in> set S" "0 < minD" "coin_value coin mod minD = 0" "0 < coin_value coin"
    and up: "\<And>upRow. up = Some upRow \<Longrightarrow> row_ok S minD n upRow"
  shows "row_ok S minD n (lut_row emptyDraw minD n up coin)"
  unfolding lut_row_def
proof (rule fold_invariant)
  show "row_ok S minD n (replicate n [])" by (rule row_ok_replicate)
next
  fix t row
  assume t: "t \<in> set [0..<n]" and row: "row_ok S minD n row"
  then have "t < n" by simp
  from lut_cell_ok [OF e coin up row this]
  have "cell_ok S minD t (lut_cell emptyDraw minD up row coin t)" by simp
  with row \<open>t < n\<close>
  show "row_ok S minD n (row[t := lut_cell emptyDraw minD up row coin t])"
    by (auto simp: row_ok_def nth_list_update)
qed

lemma lut_rows_ok:
  assumes e: "keys_of emptyDraw = set S" "draw_value emptyDraw = 0"
    and minD: "0 < minD"
    and coins: "\<And>coin. coin \<in> set cs \<Longrightarrow>
                  coin \<in> set S \<and> coin_value coin mod minD = 0 \<and> 0 < coin_value coin"
    and "cs \<noteq> []"
  shows "\<exists>row. lut_rows emptyDraw minD n cs = Some row \<and> row_ok S minD n row"
proof -
  have "\<exists>row. fold (\<lambda>denominationType up. Some (lut_row emptyDraw minD n up denominationType)) cs up
               = Some row \<and> row_ok S minD n row"
    if "cs \<noteq> [] \<or> (\<exists>r. up = Some r)" "\<And>r. up = Some r \<Longrightarrow> row_ok S minD n r"
       "\<And>coin. coin \<in> set cs \<Longrightarrow>
                  coin \<in> set S \<and> coin_value coin mod minD = 0 \<and> 0 < coin_value coin"
    for up cs
    using that
  proof (induction cs arbitrary: up)
    case Nil
    then show ?case by auto
  next
    case (Cons c cs)
    have "row_ok S minD n (lut_row emptyDraw minD n up c)"
      using Cons.prems by (intro lut_row_ok e minD) auto
    then show ?case
      using Cons.prems by (auto intro!: Cons.IH)
  qed
  from this [of cs None] show ?thesis
    using assms by (auto simp: lut_rows_def)
qed

lemma min_element_mem: "min_element cmp x xs \<in> set (x # xs)"
  by (induction xs arbitrary: x) auto

lemma min_element_le_first:
  "f (min_element (\<lambda>a b. f a < f b) x xs) \<le> (f x :: nat)"
proof (induction xs arbitrary: x)
  case Nil
  then show ?case by simp
next
  case (Cons z zs)
  show ?case
    using Cons.IH [of z] Cons.IH [of x] by auto
qed

lemma min_element_least:
  "y \<in> set (x # xs) \<Longrightarrow> f (min_element (\<lambda>a b. f a < f b) x xs) \<le> (f y :: nat)"
proof (induction xs arbitrary: x)
  case Nil
  then show ?case by simp
next
  case (Cons z zs)
  have mono: "f (min_element (\<lambda>a b. f a < f b) w zs) \<le> f w" for w
    by (rule min_element_le_first)
  show ?case
  proof (cases "f z < f x")
    case True
    then show ?thesis
      using Cons.prems Cons.IH [of z] mono [of z] by auto
  next
    case False
    then show ?thesis
      using Cons.prems Cons.IH [of x] mono [of x] by auto
  qed
qed

lemma ctor_row_ok:
  assumes "ChangeLookupTable_ctor S M = Inr t"
  shows "0 < mMinDenominator t \<and> mMaxChange t = M \<and> mSetOfCoins t = S
         \<and> M mod mMinDenominator t = 0
         \<and> row_ok S (mMinDenominator t) (M div mMinDenominator t + 1) (mLookupRow t)"
proof (cases S)
  case Nil
  with assms show ?thesis by (simp add: ChangeLookupTable_ctor_def)
next
  case (Cons c cs)
  define minD where "minD = coin_value (min_element (\<lambda>a b. coin_value a < coin_value b) c cs)"
  have pos: "0 < minD"
    using assms Cons by (auto simp: ChangeLookupTable_ctor_def minD_def Let_def split: if_splits)
  have dvd: "\<forall>coin \<in> set S. coin_value coin mod minD = 0"
    using assms Cons
    by (auto simp: ChangeLookupTable_ctor_def minD_def Let_def split: if_splits)
  have M: "M mod minD = 0"
    using assms Cons
    by (auto simp: ChangeLookupTable_ctor_def minD_def Let_def split: if_splits)
  have least: "minD \<le> coin_value coin" if "coin \<in> set S" for coin
    using min_element_least [where y = coin and x = c and xs = cs and f = coin_value] that Cons by (simp add: minD_def)
  have "\<exists>row. lut_rows (MakeEmptyDraw S) minD (M div minD + 1) S = Some row
              \<and> row_ok S minD (M div minD + 1) row"
    using pos dvd least Cons
    by (intro lut_rows_ok MakeEmptyDraw_keys MakeEmptyDraw_value) (auto simp: less_le_trans)
  then obtain row where row: "lut_rows (MakeEmptyDraw S) minD (M div minD + 1) S = Some row"
      "row_ok S minD (M div minD + 1) row"
    by blast
  have "t = \<lparr>mEmptyDraw = MakeEmptyDraw S, mMaxChange = M, mSetOfCoins = S,
             mMinDenominator = minD, mLookupRow = row\<rparr>"
    using assms Cons pos dvd M row(1)
    by (auto simp: ChangeLookupTable_ctor_def minD_def [symmetric] Let_def split: if_splits)
  then show ?thesis using pos M row(2) by simp
qed

lemma map_at_keys: "map_at d k = Inr n \<Longrightarrow> k \<in> keys_of d"
proof -
  assume "map_at d k = Inr n"
  then have "map_of d k = Some n"
    by (simp add: map_at_def split: option.splits)
  then have "(k, n) \<in> set d" by (rule map_of_SomeD)
  then show ?thesis unfolding keys_of_def by force
qed

lemma keys_map_at: "k \<in> keys_of d \<Longrightarrow> \<exists>n. map_at d k = Inr n"
proof -
  assume "k \<in> keys_of d"
  then have "k \<in> dom (map_of d)"
    by (simp add: keys_of_def dom_map_of_conv_image_fst)
  then obtain n where "map_of d k = Some n" by blast
  then show ?thesis by (simp add: map_at_def)
qed

lemma IsDrawPossible_keys:
  "IsDrawPossible a d = Inr True \<Longrightarrow> keys_of a \<subseteq> keys_of d"
proof (induction a)
  case Nil
  show ?case by simp
next
  case (Cons x a)
  from Cons.prems obtain n where n: "map_at d (fst x) = Inr n"
    by (cases "map_at d (fst x)") simp_all
  with Cons.prems have "IsDrawPossible a d = Inr True"
    by (cases "n \<le> snd x") simp_all
  with Cons.IH have "keys_of a \<subseteq> keys_of d" by simp
  with map_at_keys [OF n] show ?case by simp
qed

lemma IsDrawPossible_total:
  "keys_of a \<subseteq> keys_of d \<Longrightarrow> \<exists>b. IsDrawPossible a d = Inr b"
proof (induction a)
  case Nil
  show ?case by auto
next
  case (Cons x a)
  then obtain n where "map_at d (fst x) = Inr n"
    using keys_map_at [of "fst x" d] by auto
  moreover have "\<exists>b. IsDrawPossible a d = Inr b"
    using Cons by simp
  ultimately show ?case
    by (cases "n \<le> snd x") auto
qed

lemma copy_if_possible_filter:
  "(\<And>d. d \<in> set draws \<Longrightarrow> \<exists>b. IsDrawPossible a d = Inr b) \<Longrightarrow>
   copy_if_possible a draws = Inr (filter (\<lambda>d. IsDrawPossible a d = Inr True) draws)"
proof (induction draws)
  case Nil
  then show ?case by simp
next
  case (Cons d draws)
  from Cons.prems obtain b where b: "IsDrawPossible a d = Inr b" by auto
  have "copy_if_possible a draws = Inr (filter (\<lambda>d. IsDrawPossible a d = Inr True) draws)"
    using Cons by simp
  with b show ?case by simp
qed

lemma GetChangeDraws_ok:
  assumes ctor: "ChangeLookupTable_ctor S M = Inr t"
    and c: "c \<le> M" "c mod mMinDenominator t = 0"
  shows "GetChangeDraws t c = Inr (mLookupRow t ! (c div mMinDenominator t))
         \<and> cell_ok S (mMinDenominator t) (c div mMinDenominator t)
              (mLookupRow t ! (c div mMinDenominator t))"
proof -
  from ctor_row_ok [OF ctor]
  have pos: "0 < mMinDenominator t" and M: "mMaxChange t = M"
    and row: "row_ok S (mMinDenominator t) (M div mMinDenominator t + 1) (mLookupRow t)"
    by simp_all
  have "c div mMinDenominator t \<le> M div mMinDenominator t"
    using c(1) by (rule div_le_mono)
  then have idx: "c div mMinDenominator t < M div mMinDenominator t + 1" by simp
  then show ?thesis
    using pos M row c by (simp add: GetChangeDraws_def row_ok_def)
qed
subsection \<open>The table of the coins 5c and 10c\<close>

lemma table_5_10:
  "ChangeLookupTable_ctor [kCoinType5c, kCoinType10c] 20 =
   Inr \<lparr>mEmptyDraw = [(kCoinType5c, 0), (kCoinType10c, 0)], mMaxChange = 20,
        mSetOfCoins = [kCoinType5c, kCoinType10c], mMinDenominator = 5,
        mLookupRow =
          [[],
           [[(kCoinType5c, 1), (kCoinType10c, 0)]],
           [[(kCoinType5c, 0), (kCoinType10c, 1)]],
           [[(kCoinType5c, 3), (kCoinType10c, 0)], [(kCoinType5c, 1), (kCoinType10c, 1)]],
           [[(kCoinType5c, 4), (kCoinType10c, 0)], [(kCoinType5c, 0), (kCoinType10c, 2)]]]\<rparr>"
  by code_simp

section \<open>Claims about the change algorithm\<close>

text \<open>
  Claim C8.  For every table the constructor builds and every coin stock \<open>s\<close>,
  \<open>CanGiveChange (s, 0)\<close> returns false, because the cell of change 0 holds no draw
  (\<open>GetChangeDraws 0\<close> is empty).  Hence \<open>SaleProcessor::CompleteEvaluation\<close> publishes
  no \<open>SaleProcessed\<close> when the balance equals the price of the selected product, whatever
  the stock count and the coins available, provided its \<open>ChangeAvailable\<close> points to a
  constructed table.
\<close>

theorem zero_change_never_given:
  assumes ctor: "ChangeLookupTable_ctor S M = Inr t"
  shows "GetChangeDraws t 0 = Inr []
         \<and> CanGiveChange t s 0 = Inr False
         \<and> (deref st (mpChangeLookupTable (sp_mChangeAvailable sp)) = Inr t
              \<longrightarrow> sp_mUserBalance sp = UserBalance totalCents
              \<longrightarrow> sp_mSelection sp = SelectedProduct productId
              \<longrightarrow> sp_mStock sp productId = Some stockForProduct
              \<longrightarrow> priceCents stockForProduct = totalCents
              \<longrightarrow> SaleProcessor_CompleteEvaluation st sp = Inr [])"
proof -
  from GetChangeDraws_ok [OF ctor, of 0]
  have draws: "GetChangeDraws t 0 = Inr []"
    by (simp add: cell_ok_def)
  then have can: "CanGiveChange t s' 0 = Inr False" for s'
    by (simp add: CanGiveChange_def)
  have "SaleProcessor_CompleteEvaluation st sp = Inr []"
    if "deref st (mpChangeLookupTable (sp_mChangeAvailable sp)) = Inr t"
      "sp_mUserBalance sp = UserBalance totalCents"
      "sp_mSelection sp = SelectedProduct productId"
      "sp_mStock sp productId = Some stockForProduct"
      "priceCents stockForProduct = totalCents"
    using that can [of "mCoins (sp_mChangeAvailable sp)"]
    by (simp add: SaleProcessor_CompleteEvaluation_def ChangeAvailable_CanGiveChange_def
          to_unsigned_def)
  with draws can show ?thesis by blast
qed

theorem zero_change_never_given_witness:
  "ChangeLookupTable_ctor [kCoinType5c, kCoinType10c] 20 = Inr table20
   \<and> CanGiveChange table20 [(kCoinType5c, 3)] 0 = Inr False
   \<and> SaleProcessor_CompleteEvaluation [table20]
        \<lparr>sp_mUserBalance = UserBalance 150, sp_mSelection = SelectedProduct kApfelzaft,
         sp_mStock = [kApfelzaft \<mapsto> \<lparr>count = 3, priceCents = 150\<rparr>],
         sp_mChangeAvailable = \<lparr>mCoins = [(kCoinType5c, 3)], mpChangeLookupTable = Some 0\<rparr>\<rparr>
       = Inr []"
proof -
  have ctor: "ChangeLookupTable_ctor [kCoinType5c, kCoinType10c] 20 = Inr table20"
    unfolding table20_def by (rule table_5_10)
  from zero_change_never_given [OF ctor, of "[(kCoinType5c, 3)]" "[table20]"
      "\<lparr>sp_mUserBalance = UserBalance 150, sp_mSelection = SelectedProduct kApfelzaft,
         sp_mStock = [kApfelzaft \<mapsto> \<lparr>count = 3, priceCents = 150\<rparr>],
         sp_mChangeAvailable = \<lparr>mCoins = [(kCoinType5c, 3)], mpChangeLookupTable = Some 0\<rparr>\<rparr>"
      150 kApfelzaft "\<lparr>count = 3, priceCents = 150\<rparr>"]
  show ?thesis using ctor by (simp add: deref_def)
qed

text \<open>
  Claim C9.  For a table built from the coin set \<open>S\<close> and the maximum change \<open>M\<close> (the
  constructor returns one only when every coin and \<open>M\<close> are multiples of the smallest
  denomination), and a change \<open>c\<close> with \<open>0 < c \<le> M\<close> that is a multiple of the smallest
  denomination, \<open>GetChangeDraws c\<close> returns, and every draw it returns has entries only
  for coins of \<open>S\<close> and pays out exactly \<open>c\<close>.
\<close>

theorem GetChangeDraws_pays_exactly:
  assumes ctor: "ChangeLookupTable_ctor S M = Inr t"
    and c: "0 < c" "c \<le> M" "c mod mMinDenominator t = 0"
  shows "\<exists>draws. GetChangeDraws t c = Inr draws \<and>
           (\<forall>d \<in> set draws. keys_of d \<subseteq> set S \<and> draw_value d = c)"
proof -
  from GetChangeDraws_ok [OF ctor c(2,3)]
  have g: "GetChangeDraws t c = Inr (mLookupRow t ! (c div mMinDenominator t))"
    and ok: "cell_ok S (mMinDenominator t) (c div mMinDenominator t)
              (mLookupRow t ! (c div mMinDenominator t))"
    by simp_all
  have "c div mMinDenominator t * mMinDenominator t = c"
    using c(3) by (simp add: mod_eq_0_iff_dvd)
  with ok g show ?thesis by (auto simp: cell_ok_def)
qed

theorem GetChangeDraws_pays_exactly_witness:
  "ChangeLookupTable_ctor [kCoinType5c, kCoinType10c] 20 = Inr table20
   \<and> GetChangeDraws table20 15 =
        Inr [[(kCoinType5c, 3), (kCoinType10c, 0)], [(kCoinType5c, 1), (kCoinType10c, 1)]]
   \<and> keys_of [(kCoinType5c, 3), (kCoinType10c, 0)] \<subseteq> set [kCoinType5c, kCoinType10c]
   \<and> draw_value [(kCoinType5c, 3), (kCoinType10c, 0)] = 15
   \<and> keys_of [(kCoinType5c, 1), (kCoinType10c, 1)] \<subseteq> set [kCoinType5c, kCoinType10c]
   \<and> draw_value [(kCoinType5c, 1), (kCoinType10c, 1)] = 15"
proof -
  have ctor: "ChangeLookupTable_ctor [kCoinType5c, kCoinType10c] 20 = Inr table20"
    unfolding table20_def by (rule table_5_10)
  have draws: "GetChangeDraws table20 15 =
        Inr [[(kCoinType5c, 3), (kCoinType10c, 0)], [(kCoinType5c, 1), (kCoinType10c, 1)]]"
    by (simp add: GetChangeDraws_def table20_def)
  have "(0::nat) < 15" "(15::nat) \<le> 20" "15 mod mMinDenominator table20 = 0"
    by (simp_all add: table20_def)
  from GetChangeDraws_pays_exactly [OF ctor this] draws ctor show ?thesis by simp
qed

text \<open>
  What \<open>GetSmallestChange (availableCoins, change)\<close> does achieve: if some draw of the cell
  \<open>GetChangeDraws change\<close> is possible with the available coins, it returns a draw of that
  cell which is possible and whose \<open>GetDrawScore\<close> is least among the possible draws
  of the cell.
\<close>

lemma GetSmallestChange_least_of_cell:
  assumes ctor: "ChangeLookupTable_ctor S M = Inr t"
    and draws: "GetChangeDraws t change = Inr draws"
    and d0: "d0 \<in> set draws" "IsDrawPossible availableCoins d0 = Inr True"
  shows "\<exists>r. GetSmallestChange t availableCoins change = Inr r \<and> r \<in> set draws
           \<and> IsDrawPossible availableCoins r = Inr True
           \<and> (\<forall>d \<in> set draws. IsDrawPossible availableCoins d = Inr True
                 \<longrightarrow> GetDrawScore r \<le> GetDrawScore d)"
proof -
  have c: "change \<le> M" "change mod mMinDenominator t = 0"
    using draws ctor_row_ok [OF ctor] by (auto simp: GetChangeDraws_def split: if_splits)
  from GetChangeDraws_ok [OF ctor c] draws
  have ok: "cell_ok S (mMinDenominator t) (change div mMinDenominator t) draws" by simp
  have keys: "keys_of d = set S" if "d \<in> set draws" for d
    using ok that by (simp add: cell_ok_def)
  have "keys_of availableCoins \<subseteq> set S"
    using IsDrawPossible_keys [OF d0(2)] keys [OF d0(1)] by simp
  then have total: "\<exists>b. IsDrawPossible availableCoins d = Inr b" if "d \<in> set draws" for d
    using keys [OF that] by (intro IsDrawPossible_total) simp
  let ?possible = "filter (\<lambda>d. IsDrawPossible availableCoins d = Inr True) draws"
  have copy: "copy_if_possible availableCoins draws = Inr ?possible"
    using total by (rule copy_if_possible_filter)
  have "d0 \<in> set ?possible" using d0 by simp
  then obtain p ps where ps: "?possible = p # ps"
    by (cases ?possible) auto
  let ?r = "min_element (\<lambda>d1 d2. GetDrawScore d1 < GetDrawScore d2) p ps"
  have r: "GetSmallestChange t availableCoins change = Inr ?r"
    using draws copy ps by (simp add: GetSmallestChange_def smallest_draw_def)
  have mem: "?r \<in> set ?possible"
    using min_element_mem [of _ p ps] ps by simp
  have least: "GetDrawScore ?r \<le> GetDrawScore d" if "d \<in> set ?possible" for d
    using min_element_least [where f = GetDrawScore and x = p and xs = ps and y = d] that ps
    by simp
  show ?thesis
    using r mem least by (intro exI [of _ ?r]) auto
qed

text \<open>
  Claim C10.  Under the precondition that some draw of \<open>GetChangeDraws change\<close> is possible
  with the available coins, \<open>GetSmallestChange (availableCoins, change)\<close> is to return a
  possible draw whose number of coins is least among all possible draws for the amount.
  The code does not: where a coin equals the target, the constructor stores the
  single-coin draw alone and drops the draws of the row above, so the cells of later
  targets lack the combinations built on those.  With the coins 5c and 10c and a stock of
  four 5c and one 10c, the cell of 20 cents holds four 5c and two 10c only; the first is
  possible, so the precondition holds, and it is returned with its four coins, although
  two 5c and one 10c pay 20 cents from the stock with three.
\<close>

theorem GetSmallestChange_not_fewest_coins:
  "ChangeLookupTable_ctor [kCoinType5c, kCoinType10c] 20 = Inr table20
   \<and> GetChangeDraws table20 20 =
         Inr [[(kCoinType5c, 4), (kCoinType10c, 0)], [(kCoinType5c, 0), (kCoinType10c, 2)]]
   \<and> IsDrawPossible [(kCoinType5c, 4), (kCoinType10c, 1)] [(kCoinType5c, 4), (kCoinType10c, 0)]
         = Inr True
   \<and> GetSmallestChange table20 [(kCoinType5c, 4), (kCoinType10c, 1)] 20
         = Inr [(kCoinType5c, 4), (kCoinType10c, 0)]
   \<and> GetDrawScore [(kCoinType5c, 4), (kCoinType10c, 0)] = 4
   \<and> IsDrawPossible [(kCoinType5c, 4), (kCoinType10c, 1)] [(kCoinType5c, 2), (kCoinType10c, 1)]
         = Inr True
   \<and> draw_value [(kCoinType5c, 2), (kCoinType10c, 1)] = 20
   \<and> GetDrawScore [(kCoinType5c, 2), (kCoinType10c, 1)] = 3"
proof -
  have ctor: "ChangeLookupTable_ctor [kCoinType5c, kCoinType10c] 20 = Inr table20"
    unfolding table20_def by (rule table_5_10)
  have draws: "GetChangeDraws table20 20 =
         Inr [[(kCoinType5c, 4), (kCoinType10c, 0)], [(kCoinType5c, 0), (kCoinType10c, 2)]]"
    by (simp add: GetChangeDraws_def table20_def)
  have res: "GetSmallestChange table20 [(kCoinType5c, 4), (kCoinType10c, 1)] 20
         = Inr [(kCoinType5c, 4), (kCoinType10c, 0)]"
    by (simp add: GetSmallestChange_def draws smallest_draw_def map_at_def GetDrawScore_def)
  show ?thesis
    using ctor draws res by (simp add: map_at_def GetDrawScore_def draw_value_def)
qed
section \<open>Shared payloads\<close>

lemma invoke_store:
  "invoke cb w = Inr w' \<Longrightarrow> prefix (store w) (store w')"
  by (cases cb) (auto split: sum.splits ReturnChange.splits)

lemma invoke_published:
  "invoke cb w = Inr w' \<Longrightarrow> prefix (published w) (published w')"
  by (cases cb) (auto split: sum.splits ReturnChange.splits)

lemma deref_prefix:
  "prefix st st' \<Longrightarrow> live st p \<Longrightarrow> deref st' p = deref st p"
  by (cases p) (auto simp: deref_def live_def prefix_def nth_append)

lemma invoke_all_store:
  "invoke_all cbs w = Inr w' \<Longrightarrow> prefix (store w) (store w')"
proof (induction cbs arbitrary: w)
  case Nil
  then show ?case by simp
next
  case (Cons cb cbs)
  then obtain w1 where w1: "invoke cb w = Inr w1" "invoke_all cbs w1 = Inr w'"
    by (auto split: sum.splits)
  from invoke_store [OF w1(1)] Cons.IH [OF w1(2)] show ?case
    by (rule prefix_order.trans)
qed

lemma invoke_all_published:
  "invoke_all cbs w = Inr w' \<Longrightarrow> prefix (published w) (published w')"
proof (induction cbs arbitrary: w)
  case Nil
  then show ?case by simp
next
  case (Cons cb cbs)
  then obtain w1 where w1: "invoke cb w = Inr w1" "invoke_all cbs w1 = Inr w'"
    by (auto split: sum.splits)
  from invoke_published [OF w1(1)] Cons.IH [OF w1(2)] show ?case
    by (rule prefix_order.trans)
qed

text \<open>
  Claim C7.  Whatever callbacks of the subscribers (\<open>SaleProcessor\<close>,
  \<open>FinancesReportDetector\<close>) and of the publisher (\<open>CoinBankManager\<close>, its constructor
  included) run, in any order: everything published before is still there unchanged, and
  every \<open>ChangeAvailable\<close> whose pointer was live denotes the same coins and the same
  table afterwards.  An update reaches the subscribers only as a new value: the
  \<open>CompleteEvaluation\<close> of \<open>CoinBankManager\<close> appends one \<open>ChangeAvailable\<close> holding a
  copy of the current stock and a copy of the pointer, and leaves the store as it was.
\<close>

theorem published_payload_unchanged:
  assumes run: "invoke_all cbs w = Inr w'"
  shows "prefix (published w) (published w')
         \<and> (live (store w) (mpChangeLookupTable ca) \<longrightarrow>
              payload (store w') ca = payload (store w) ca)
         \<and> (cbs = [CoinBankManager_Complete] \<longrightarrow>
              published w' = published w @
                [MsgChangeAvailable
                   \<lparr>mCoins = cbm_mAvailable (coinBankManager w),
                    mpChangeLookupTable = cbm_mpChangeLookupTable (coinBankManager w)\<rparr>]
              \<and> store w' = store w)"
proof -
  have "payload (store w') ca = payload (store w) ca"
    if "live (store w) (mpChangeLookupTable ca)"
    using deref_prefix [OF invoke_all_store [OF run] that] by (simp add: payload_def)
  moreover have "published w' = published w @
                [MsgChangeAvailable
                   \<lparr>mCoins = cbm_mAvailable (coinBankManager w),
                    mpChangeLookupTable = cbm_mpChangeLookupTable (coinBankManager w)\<rparr>]
              \<and> store w' = store w" if "cbs = [CoinBankManager_Complete]"
    using run that by auto
  ultimately show ?thesis
    using invoke_all_published [OF run] by blast
qed

theorem published_payload_unchanged_witness:
  "invoke_all [CoinBankManager_Complete] vending0 =
     Inr (vending0\<lparr>published :=
            [MsgChangeAvailable \<lparr>mCoins = [(kCoinType5c, 3)], mpChangeLookupTable = Some 0\<rparr>,
             MsgChangeAvailable \<lparr>mCoins = [(kCoinType5c, 4)], mpChangeLookupTable = Some 0\<rparr>]\<rparr>)
   \<and> live (store vending0) (Some 0)
   \<and> payload [table20] \<lparr>mCoins = [(kCoinType5c, 3)], mpChangeLookupTable = Some 0\<rparr>
       = ([(kCoinType5c, 3)], Inr table20)"
proof -
  have run: "invoke_all [CoinBankManager_Complete] vending0 =
     Inr (vending0\<lparr>published :=
            [MsgChangeAvailable \<lparr>mCoins = [(kCoinType5c, 3)], mpChangeLookupTable = Some 0\<rparr>,
             MsgChangeAvailable \<lparr>mCoins = [(kCoinType5c, 4)], mpChangeLookupTable = Some 0\<rparr>]\<rparr>)"
    by (simp add: vending0_def)
  have alive: "live (store vending0) (Some 0)"
    by (simp add: vending0_def live_def)
  from published_payload_unchanged [OF run,
      of "\<lparr>mCoins = [(kCoinType5c, 3)], mpChangeLookupTable = Some 0\<rparr>"]
  show ?thesis
    using run alive by (simp add: payload_def deref_def vending0_def)
qed
section \<open>Properties of the graph core\<close>

subsection \<open>The registry\<close>

lemma slot_of_Some:
  "slot_of T reg = Some i \<Longrightarrow> i < length reg \<and> fst (reg ! i) = T"
proof (induction reg arbitrary: i)
  case Nil
  then show ?case by simp
next
  case (Cons entry reg)
  show ?case
  proof (cases "fst entry = T")
    case True
    with Cons.prems show ?thesis by simp
  next
    case False
    with Cons.prems obtain j where j: "slot_of T reg = Some j" "i = Suc j"
      by auto
    with Cons.IH [OF j(1)] show ?thesis by simp
  qed
qed

lemma slot_of_None: "slot_of T reg = None \<longleftrightarrow> T \<notin> fst ` set reg"
  by (induction reg) auto

lemma slot_of_append_Some:
  "slot_of T reg = Some i \<Longrightarrow> slot_of T (reg @ extra) = Some i"
proof (induction reg arbitrary: i)
  case Nil
  then show ?case by simp
next
  case (Cons entry reg)
  show ?case
  proof (cases "fst entry = T")
    case True
    with Cons.prems show ?thesis by simp
  next
    case False
    with Cons.prems obtain j where j: "slot_of T reg = Some j" "i = Suc j"
      by auto
    with Cons.IH [OF j(1)] False show ?thesis by simp
  qed
qed

lemma slot_of_append_new:
  "slot_of T reg = None \<Longrightarrow> slot_of T (reg @ [(T, t)]) = Some (length reg)"
proof (induction reg)
  case Nil
  then show ?case by simp
next
  case (Cons entry reg)
  then have "fst entry \<noteq> T" "slot_of T reg = None"
    by (auto split: if_splits)
  with Cons.IH show ?case by simp
qed

lemma Resolve_found:
  "slot_of T reg = Some i \<Longrightarrow> Resolve dflt T reg = (i, reg)"
  by (simp add: Resolve_def)

lemma Resolve_new:
  "slot_of T reg = None \<Longrightarrow>
   Resolve dflt T reg =
     (length reg, reg @ [(T, \<lparr>current = dflt, new_values = [], subscribers = []\<rparr>)])"
  by (simp add: Resolve_def)

lemma Resolve_slot:
  "slot_of T (snd (Resolve dflt T reg)) = Some (fst (Resolve dflt T reg))"
proof (cases "slot_of T reg")
  case None
  then show ?thesis by (simp add: Resolve_new slot_of_append_new)
next
  case (Some i)
  then show ?thesis by (simp add: Resolve_found)
qed

lemma Resolve_keeps_distinct:
  assumes "distinct (map fst reg)"
  shows "distinct (map fst (snd (Resolve dflt T reg)))"
proof (cases "slot_of T reg")
  case None
  then have "T \<notin> fst ` set reg" by (simp add: slot_of_None)
  with assms None show ?thesis by (simp add: Resolve_new)
next
  case (Some i)
  with assms show ?thesis by (simp add: Resolve_found)
qed

lemma resolve_all_distinct: "distinct (map fst (resolve_all dflt Ts))"
proof -
  have "distinct (map fst (fold (\<lambda>T reg. snd (Resolve dflt T reg)) Ts reg))"
    if "distinct (map fst reg)" for reg :: "'a TopicRegistry"
    using that by (induction Ts arbitrary: reg) (simp_all add: Resolve_keeps_distinct)
  from this [of "[]"] show ?thesis by (simp add: resolve_all_def)
qed

subsection \<open>The topological order\<close>

lemma topological_order_Inr:
  assumes "topological_order edge remaining = Inr order" "remaining \<noteq> []"
  obtains d rest where "find (\<lambda>d. list_all (\<lambda>p. \<not> edge p d) remaining) remaining = Some d"
    "topological_order edge (remove1 d remaining) = Inr rest" "order = d # rest"
  using assms
  by (subst (asm) topological_order.simps) (auto split: option.splits sum.splits)

lemma topological_order_Nil: "topological_order edge [] = Inr []"
  by (subst topological_order.simps) simp

lemma topological_order_set:
  "topological_order edge remaining = Inr order \<Longrightarrow>
   set order = set remaining \<and> length order = length remaining
   \<and> (distinct remaining \<longrightarrow> distinct order)"
proof (induction edge remaining arbitrary: order rule: topological_order.induct)
  case (1 edge remaining)
  show ?case
  proof (cases "remaining = []")
    case True
    with "1.prems" show ?thesis by (simp add: topological_order_Nil)
  next
    case False
    from "1.prems" False obtain d rest
      where d: "find (\<lambda>d. list_all (\<lambda>p. \<not> edge p d) remaining) remaining = Some d"
        and rest: "topological_order edge (remove1 d remaining) = Inr rest"
        and order: "order = d # rest"
      by (rule topological_order_Inr)
    have din: "d \<in> set remaining" using d by (auto simp: find_Some_iff)
    have IH: "set rest = set (remove1 d remaining)" "length rest = length (remove1 d remaining)"
      "distinct (remove1 d remaining) \<longrightarrow> distinct rest"
      using "1.IH" [OF False d rest] by simp_all
    have "x \<in> set (remove1 d remaining) \<longleftrightarrow> x \<in> set remaining" if "x \<noteq> d" for x
      using that by (rule in_set_remove1)
    then have "insert d (set (remove1 d remaining)) = set remaining"
      using din set_remove1_subset [of d remaining] by blast
    then have "set order = set remaining"
      using IH(1) order by simp
    moreover have "length order = length remaining"
      using IH(2) din order length_pos_if_in_set [OF din] by (simp add: length_remove1)
    moreover have "distinct order" if "distinct remaining"
      using IH(1,3) that order by simp
    ultimately show ?thesis by simp
  qed
qed


lemma topological_order_ties:
  assumes "topological_order edge remaining = Inr order"
    and "sorted remaining" "distinct remaining"
  shows "\<forall>i j. i < j \<and> j < length order \<and> order ! j < order ! i \<longrightarrow>
           (\<exists>k. i \<le> k \<and> k < length order \<and> edge (order ! k) (order ! j))"
  using assms
proof (induction edge remaining arbitrary: order rule: topological_order.induct)
  case (1 edge remaining)
  show ?case
  proof (cases "remaining = []")
    case True
    with "1.prems" show ?thesis by (simp add: topological_order_Nil)
  next
    case False
    from "1.prems"(1) False obtain d rest
      where d: "find (\<lambda>d. list_all (\<lambda>p. \<not> edge p d) remaining) remaining = Some d"
        and rest: "topological_order edge (remove1 d remaining) = Inr rest"
        and order: "order = d # rest"
      by (rule topological_order_Inr)
    from d obtain idx where idx: "idx < length remaining" "d = remaining ! idx"
      and first: "\<forall>b < idx. \<not> list_all (\<lambda>p. \<not> edge p (remaining ! b)) remaining"
      by (auto simp: find_Some_iff)
    have sets: "set order = set remaining"
      using topological_order_set [OF "1.prems"(1)] by simp
    have IH: "\<forall>i j. i < j \<and> j < length rest \<and> rest ! j < rest ! i \<longrightarrow>
           (\<exists>k. i \<le> k \<and> k < length rest \<and> edge (rest ! k) (rest ! j))"
      using "1.IH" [OF False d rest] "1.prems"(2,3)
      by (simp add: sorted_remove1)
    show ?thesis
    proof (intro allI impI)
      fix i j
      assume ij: "i < j \<and> j < length order \<and> order ! j < order ! i"
      then obtain j' where j': "j = Suc j'" by (cases j) auto
      show "\<exists>k. i \<le> k \<and> k < length order \<and> edge (order ! k) (order ! j)"
      proof (cases i)
        case 0
        let ?B = "order ! j"
        have "?B \<in> set remaining" using ij sets by (metis nth_mem)
        then obtain b where b: "b < length remaining" "remaining ! b = ?B"
          by (auto simp: in_set_conv_nth)
        have "?B < d" using ij 0 order j' by simp
        have "b < idx"
        proof (rule ccontr)
          assume "\<not> b < idx"
          then have "idx \<le> b" by simp
          then have "remaining ! idx \<le> remaining ! b"
            using "1.prems"(2) b(1) by (simp add: sorted_nth_mono)
          with \<open>?B < d\<close> idx b show False by simp
        qed
        with first b have "\<not> list_all (\<lambda>p. \<not> edge p ?B) remaining" by auto
        then obtain p where p: "p \<in> set remaining" "edge p ?B"
          by (auto simp: list_all_iff)
        from p(1) sets have "p \<in> set order" by simp
        then obtain k where "k < length order" "order ! k = p"
          unfolding in_set_conv_nth by blast
        with p 0 show ?thesis by auto
      next
        case (Suc i')
        with ij j' order have "i' < j' \<and> j' < length rest \<and> rest ! j' < rest ! i'"
          by simp
        with IH obtain k where "i' \<le> k" "k < length rest" "edge (rest ! k) (rest ! j')"
          by blast
        then have "Suc i' \<le> Suc k \<and> Suc k < length order \<and> edge (order ! Suc k) (order ! j)"
          using order j' by simp
        with Suc show ?thesis by blast
      qed
    qed
  qed
qed

subsection \<open>The call log of a traversal\<close>

lemma deliver_calls:
  "deliver i ins g = Inr g' \<Longrightarrow>
   calls g' = calls g @ map (\<lambda>input. EvaluateCall i (fst input) (snd input)) ins"
proof (induction ins arbitrary: g)
  case Nil
  then show ?case by simp
next
  case (Cons input ins)
  let ?d = "detectors g ! i"
  let ?result = "Evaluate ?d (fst input) (snd input) (storage ?d)"
  from Cons.prems obtain reg where reg: "publish_each (snd ?result) (registry g) = Inr reg"
    by (cases "publish_each (snd ?result) (registry g)") (simp_all add: Let_def)
  let ?g1 = "g\<lparr>registry := reg,
               detectors := (detectors g)[i := ?d\<lparr>storage := fst ?result\<rparr>],
               calls := calls g @ [EvaluateCall i (fst input) (snd input)]\<rparr>"
  from Cons.prems reg have "deliver i ins ?g1 = Inr g'"
    by (simp add: Let_def)
  from Cons.IH [OF this] show ?case by simp
qed

lemma complete_calls:
  "complete i g = Inr g' \<Longrightarrow> calls g' = calls g @ [CompleteEvaluationCall i]"
  by (auto simp: complete_def Let_def split: sum.splits)

lemma visit_appends:
  assumes "visit i g = Inr g'"
  shows "calls g' = calls g @ visit_calls i g"
proof (cases "is_dirty (registry g) (detectors g ! i)")
  case False
  with assms show ?thesis by (simp add: visit_def visit_calls_def)
next
  case True
  with assms obtain g1 where g1: "deliver i (inputs_of (registry g) (detectors g ! i)) g = Inr g1"
    and g': "complete i g1 = Inr g'"
    by (cases "deliver i (inputs_of (registry g) (detectors g ! i)) g") (simp_all add: visit_def)
  from deliver_calls [OF g1] complete_calls [OF g'] True show ?thesis
    by (simp add: visit_calls_def)
qed

lemma visit_calls_callee: "c \<in> set (visit_calls i g) \<Longrightarrow> callee c = i"
  by (auto simp: visit_calls_def split: if_splits)

lemma visit_calls_complete:
  "CompleteEvaluationCall d \<in> set (visit_calls i g) \<longleftrightarrow>
   d = i \<and> is_dirty (registry g) (detectors g ! i)"
  by (auto simp: visit_calls_def)

lemma visit_calls_last:
  "CompleteEvaluationCall i \<in> set (visit_calls i g) \<Longrightarrow>
   \<exists>pre. visit_calls i g = pre @ [CompleteEvaluationCall i] \<and> CompleteEvaluationCall i \<notin> set pre"
  by (auto simp: visit_calls_def split: if_splits)

lemma walk_Cons_Inr:
  assumes "walk (i # order) g = Inr g'"
  obtains g1 where "visit i g = Inr g1" "walk order g1 = Inr g'"
  using assms by (cases "visit i g") simp_all




lemma walk_complete:
  assumes "walk order g = Inr g'" "distinct order"
  shows "\<exists>new. calls g' = calls g @ new
           \<and> (\<forall>c \<in> set new. callee c \<in> set order)
           \<and> (CompleteEvaluationCall d \<in> set new \<longleftrightarrow>
                d \<in> set order \<and>
                (\<exists>gr. reached order d g = Inr gr \<and> is_dirty (registry gr) (detectors gr ! d)))
           \<and> (CompleteEvaluationCall d \<in> set new \<longrightarrow>
                (\<exists>pre post. new = pre @ CompleteEvaluationCall d # post
                   \<and> CompleteEvaluationCall d \<notin> set pre
                   \<and> (\<forall>c \<in> set post. callee c \<noteq> d)))"
  using assms
proof (induction order arbitrary: g)
  case Nil
  then show ?case by simp
next
  case (Cons i order)
  from Cons.prems(1) obtain g1 where g1: "visit i g = Inr g1" and rest: "walk order g1 = Inr g'"
    by (rule walk_Cons_Inr)
  have dist: "distinct order" "i \<notin> set order" using Cons.prems(2) by simp_all
  from Cons.IH [OF rest dist(1)] obtain new
    where new: "calls g' = calls g1 @ new" "\<forall>c \<in> set new. callee c \<in> set order"
      and iff: "CompleteEvaluationCall d \<in> set new \<longleftrightarrow>
                d \<in> set order \<and>
                (\<exists>gr. reached order d g1 = Inr gr \<and> is_dirty (registry gr) (detectors gr ! d))"
      and last: "CompleteEvaluationCall d \<in> set new \<longrightarrow>
                (\<exists>pre post. new = pre @ CompleteEvaluationCall d # post
                   \<and> CompleteEvaluationCall d \<notin> set pre
                   \<and> (\<forall>c \<in> set post. callee c \<noteq> d))"
    by blast
  let ?new = "visit_calls i g @ new"
  have all: "calls g' = calls g @ ?new"
    using new(1) visit_appends [OF g1] by simp
  have callees: "\<forall>c \<in> set ?new. callee c \<in> set (i # order)"
    using new(2) visit_calls_callee [of _ i g] by auto
  show ?case
  proof (cases "d = i")
    case True
    have notin: "CompleteEvaluationCall d \<notin> set new"
      using new(2) dist(2) True by force
    have "reached (i # order) d g = Inr g"
      using True by (simp add: reached_def)
    then have iff': "CompleteEvaluationCall d \<in> set ?new \<longleftrightarrow>
                d \<in> set (i # order) \<and>
                (\<exists>gr. reached (i # order) d g = Inr gr \<and> is_dirty (registry gr) (detectors gr ! d))"
      using True notin by (simp add: visit_calls_complete)
    have last': "\<exists>pre post. ?new = pre @ CompleteEvaluationCall d # post
                   \<and> CompleteEvaluationCall d \<notin> set pre
                   \<and> (\<forall>c \<in> set post. callee c \<noteq> d)"
      if "CompleteEvaluationCall d \<in> set ?new"
    proof -
      from that notin True have "CompleteEvaluationCall i \<in> set (visit_calls i g)" by simp
      from visit_calls_last [OF this] obtain pre
        where pre: "visit_calls i g = pre @ [CompleteEvaluationCall i]"
          "CompleteEvaluationCall i \<notin> set pre"
        by blast
      have "\<forall>c \<in> set new. callee c \<noteq> d"
        using new(2) dist(2) True by auto
      with pre True show ?thesis by auto
    qed
    from all callees iff' last' show ?thesis by blast
  next
    case False
    have notin: "CompleteEvaluationCall d \<notin> set (visit_calls i g)"
      using False by (simp add: visit_calls_complete)
    have "reached (i # order) d g = reached order d g1"
      using False g1 by (simp add: reached_def)
    then have iff': "CompleteEvaluationCall d \<in> set ?new \<longleftrightarrow>
                d \<in> set (i # order) \<and>
                (\<exists>gr. reached (i # order) d g = Inr gr \<and> is_dirty (registry gr) (detectors gr ! d))"
      using False notin iff by simp
    have last': "\<exists>pre post. ?new = pre @ CompleteEvaluationCall d # post
                   \<and> CompleteEvaluationCall d \<notin> set pre
                   \<and> (\<forall>c \<in> set post. callee c \<noteq> d)"
      if "CompleteEvaluationCall d \<in> set ?new"
    proof -
      from that notin have "CompleteEvaluationCall d \<in> set new" by simp
      with last obtain pre post where pp: "new = pre @ CompleteEvaluationCall d # post"
        "CompleteEvaluationCall d \<notin> set pre" "\<forall>c \<in> set post. callee c \<noteq> d"
        by blast
      have "?new = (visit_calls i g @ pre) @ CompleteEvaluationCall d # post"
        using pp(1) by simp
      moreover have "CompleteEvaluationCall d \<notin> set (visit_calls i g @ pre)"
        using notin pp(2) by simp
      ultimately show ?thesis using pp(3) by blast
    qed
    from all callees iff' last' show ?thesis by blast
  qed
qed
section \<open>Claims about the graph core\<close>

text \<open>
  Claim C6.  \<open>Resolve<T>\<close> is idempotent: resolving \<open>T\<close> again in the registry the first
  call left returns the same topic instance and leaves the registry as it is, and the
  instance returned is the slot of \<open>T\<close>.  A registry built by resolving, in any sequence,
  never holds two topics of one type.
\<close>

theorem Resolve_idempotent:
  "Resolve dflt' T (snd (Resolve dflt T reg)) = Resolve dflt T reg
   \<and> slot_of T (snd (Resolve dflt T reg)) = Some (fst (Resolve dflt T reg))
   \<and> distinct (map fst (resolve_all dflt Ts))"
proof -
  obtain i reg' where r: "Resolve dflt T reg = (i, reg')"
    by (cases "Resolve dflt T reg")
  with Resolve_slot [of T dflt reg] have "slot_of T reg' = Some i" by simp
  then have "Resolve dflt' T reg' = (i, reg')" by (rule Resolve_found)
  with r have "Resolve dflt' T (snd (Resolve dflt T reg)) = Resolve dflt T reg"
    by simp
  then show ?thesis
    by (simp add: Resolve_slot resolve_all_distinct)
qed

theorem Resolve_idempotent_witness:
  "Resolve (0::nat) (TopicOf 1) (snd (Resolve 0 (TopicOf 1) (resolve_all 0 [TopicOf 0])))
     = Resolve 0 (TopicOf 1) (resolve_all 0 [TopicOf 0])
   \<and> fst (Resolve (0::nat) (TopicOf 1) (resolve_all 0 [TopicOf 0])) = 1
   \<and> distinct (map fst (resolve_all (0::nat) [TopicOf 0, TopicOf 1, TopicOf 0]))"
proof -
  have "fst (Resolve (0::nat) (TopicOf 1) (resolve_all 0 [TopicOf 0])) = 1"
    by (simp add: resolve_all_def Resolve_def)
  with Resolve_idempotent [of "0::nat" "TopicOf 1" 0 "resolve_all 0 [TopicOf 0]"
      "[TopicOf 0, TopicOf 1, TopicOf 0]"]
  show ?thesis by simp
qed

subsection \<open>The graph of scenario S1\<close>




lemma graph_S1_run:
  "(case ProcessData (TopicOf 0) 1 graph_S1 of
      Inl e \<Rightarrow> False
    | Inr g' \<Rightarrow>
        calls g' = [EvaluateCall 1 (TopicOf 0) 1, CompleteEvaluationCall 1,
                    EvaluateCall 0 (TopicOf 1) 10, CompleteEvaluationCall 0])"
  by code_simp

lemma graph_S1_run_skip:
  "(case ProcessData (TopicOf 1) 5 graph_S1 of
      Inl e \<Rightarrow> False
    | Inr g' \<Rightarrow>
        calls g' = [EvaluateCall 0 (TopicOf 1) 5, CompleteEvaluationCall 0])"
  by code_simp




text \<open>
  Claim C3.  In the traversal of one \<open>ProcessData\<close> call, for every detector \<open>d\<close>:
  \<open>CompleteEvaluation\<close> is called at most once; when it is called, no call to \<open>d\<close> comes
  after it, so every \<open>Evaluate\<close> of the visit has been made; and it is called if and
  only if \<open>d\<close> is in the order and one of its subscribed topics held a new value in the
  graph the walker had before it on reaching \<open>d\<close>.
\<close>

theorem CompleteEvaluation_once_last_iff_dirty:
  assumes run: "ProcessData T v (g :: ('s, 'v) Graph) = Inr g'"
  shows "length (filter (\<lambda>c. c = CompleteEvaluationCall d) (calls g')) \<le> 1
         \<and> (CompleteEvaluationCall d \<in> set (calls g') \<longrightarrow>
              (\<exists>pre post. calls g' = pre @ CompleteEvaluationCall d # post
                 \<and> CompleteEvaluationCall d \<notin> set pre
                 \<and> (\<forall>c \<in> set post. callee c \<noteq> d)))
         \<and> (CompleteEvaluationCall d \<in> set (calls g') \<longleftrightarrow>
              (\<exists>reg order gr.
                 Publish T v (registry g) = Inr reg
                 \<and> TopologicalOrder g = Inr order \<and> d \<in> set order
                 \<and> reached order d (g\<lparr>registry := reg, calls := []\<rparr>) = Inr gr
                 \<and> is_dirty (registry gr) (detectors gr ! d)))"
proof -
  from run obtain reg where reg: "Publish T v (registry g) = Inr reg"
    and eval: "EvaluateGraph (g\<lparr>registry := reg\<rparr>) = Inr g'"
    by (auto simp: ProcessData_def split: sum.splits)
  from eval obtain order g1 where order: "TopologicalOrder (g\<lparr>registry := reg\<rparr>) = Inr order"
    and walk: "walk order (g\<lparr>registry := reg, calls := []\<rparr>) = Inr g1"
    and g': "g' = g1\<lparr>registry := map (\<lambda>entry. (fst entry, Consolidate (snd entry)))
                                   (registry g1)\<rparr>"
    by (auto simp: EvaluateGraph_def split: sum.splits)
  have order': "TopologicalOrder g = Inr order"
    using order by (simp add: TopologicalOrder_def)
  then have "topological_order (precedes (detectors g)) [0..<length (detectors g)] = Inr order"
    by (simp add: TopologicalOrder_def)
  from topological_order_set [OF this] have dist: "distinct order" by simp
  let ?C = "CompleteEvaluationCall d :: 'v call"
  let ?g0 = "g\<lparr>registry := reg, calls := []\<rparr>"
  from walk_complete [OF walk dist, of d] obtain new
    where all: "calls g1 = calls ?g0 @ new
           \<and> (\<forall>c \<in> set new. callee c \<in> set order)
           \<and> (?C \<in> set new \<longleftrightarrow>
                d \<in> set order \<and>
                (\<exists>gr. reached order d ?g0 = Inr gr \<and> is_dirty (registry gr) (detectors gr ! d)))
           \<and> (?C \<in> set new \<longrightarrow>
                (\<exists>pre post. new = pre @ ?C # post
                   \<and> ?C \<notin> set pre
                   \<and> (\<forall>c \<in> set post. callee c \<noteq> d)))"
    by (erule exE)
  from all have new: "calls g1 = calls ?g0 @ new"
    by (rule conjunct1)
  from all have iff0: "?C \<in> set new \<longleftrightarrow>
                d \<in> set order \<and>
                (\<exists>gr. reached order d ?g0 = Inr gr \<and> is_dirty (registry gr) (detectors gr ! d))"
    by (rule conjunct1 [OF conjunct2 [OF conjunct2]])
  from all have last0: "?C \<in> set new \<longrightarrow>
                (\<exists>pre post. new = pre @ ?C # post \<and> ?C \<notin> set pre
                   \<and> (\<forall>c \<in> set post. callee c \<noteq> d))"
    by (rule conjunct2 [OF conjunct2 [OF conjunct2]])
  have log: "calls g' = new"
    using new g' by simp
  have iff: "?C \<in> set (calls g') \<longleftrightarrow>
                d \<in> set order \<and>
                (\<exists>gr. reached order d (g\<lparr>registry := reg, calls := []\<rparr>) = Inr gr
                   \<and> is_dirty (registry gr) (detectors gr ! d))"
    using iff0 unfolding log .
  have last: "?C \<in> set (calls g') \<longrightarrow>
                (\<exists>pre post. calls g' = pre @ ?C # post \<and> ?C \<notin> set pre
                   \<and> (\<forall>c \<in> set post. callee c \<noteq> d))"
    using last0 unfolding log .
  have once: "length (filter (\<lambda>c. c = ?C) (calls g')) \<le> 1"
  proof (cases "?C \<in> set (calls g')")
    case False
    then have "filter (\<lambda>c. c = ?C) (calls g') = []"
      by (auto simp: filter_empty_conv)
    then show ?thesis by simp
  next
    case True
    with last obtain pre post where pp: "calls g' = pre @ ?C # post" "?C \<notin> set pre"
      "\<forall>c \<in> set post. callee c \<noteq> d"
      by blast
    have "filter (\<lambda>c. c = ?C) pre = []"
      using pp(2) by (auto simp: filter_empty_conv)
    moreover have "filter (\<lambda>c. c = ?C) post = []"
      using pp(3) by (auto simp: filter_empty_conv)
    ultimately show ?thesis using pp(1) by simp
  qed
  have "?C \<in> set (calls g') \<longleftrightarrow>
              (\<exists>reg order gr.
                 Publish T v (registry g) = Inr reg
                 \<and> TopologicalOrder g = Inr order \<and> d \<in> set order
                 \<and> reached order d (g\<lparr>registry := reg, calls := []\<rparr>) = Inr gr
                 \<and> is_dirty (registry gr) (detectors gr ! d))"
    using iff reg order' by auto
  with once last show ?thesis by blast
qed

theorem CompleteEvaluation_once_last_iff_dirty_witness:
  "(\<exists>g'. ProcessData (TopicOf 0) 1 graph_S1 = Inr g'
      \<and> calls g' = [EvaluateCall 1 (TopicOf 0) 1, CompleteEvaluationCall 1] @
                   [EvaluateCall 0 (TopicOf 1) 10, CompleteEvaluationCall 0]
      \<and> length (filter (\<lambda>c. c = CompleteEvaluationCall 0) (calls g')) = 1
      \<and> length (filter (\<lambda>c. c = CompleteEvaluationCall 1) (calls g')) = 1)
   \<and> (\<exists>g'. ProcessData (TopicOf 1) 5 graph_S1 = Inr g'
      \<and> calls g' = [EvaluateCall 0 (TopicOf 1) 5, CompleteEvaluationCall 0]
      \<and> length (filter (\<lambda>c. c = CompleteEvaluationCall 1) (calls g')) = 0)"
proof -
  from graph_S1_run obtain g' where g': "ProcessData (TopicOf 0) 1 graph_S1 = Inr g'"
    and log: "calls g' = [EvaluateCall 1 (TopicOf 0) 1, CompleteEvaluationCall 1,
                          EvaluateCall 0 (TopicOf 1) 10, CompleteEvaluationCall 0]"
    by (cases "ProcessData (TopicOf 0) 1 graph_S1") simp_all
  from graph_S1_run_skip obtain h' where h': "ProcessData (TopicOf 1) 5 graph_S1 = Inr h'"
    and skip: "calls h' = [EvaluateCall 0 (TopicOf 1) 5, CompleteEvaluationCall 0]"
    by (cases "ProcessData (TopicOf 1) 5 graph_S1") simp_all
  from CompleteEvaluation_once_last_iff_dirty [OF g', of 0]
  have "length (filter (\<lambda>c. c = CompleteEvaluationCall 0) (calls g')) \<le> 1" by blast
  with g' log h' skip show ?thesis by simp
qed

end
